theory Spec2Isabelle
  imports Main "HOL-Library.Log_Nat"
begin

section \<open>JavaScript numbers\<close>

text \<open>
  The program is TypeScript; every number in it is an IEEE 754 binary64 value. A number is
  modelled as a finite rational (the value of a finite double), one of the two infinities,
  or NaN. The two zeros are identified: the program never divides and never inspects the
  sign of a zero. Arithmetic rounds its exact result to the nearest double, ties to even
  (\<open>rd\<close>), so absorption and overflow are part of the model.
\<close>

datatype jsnum = Fin rat | PInf | NInf | NaN

text \<open>\<open>ilog2 q\<close> is the binary exponent of a positive rational: the integer part of its
  base-2 logarithm.\<close>

definition ilog2 :: "rat \<Rightarrow> int" where
  "ilog2 q =
     (if 1 \<le> q then bitlen \<lfloor>q\<rfloor> - 1
      else (let k = bitlen \<lfloor>1 / q\<rfloor>
            in if q * 2 ^ nat (k - 1) = 1 then - (k - 1) else - k))"

text \<open>Round to the nearest integer, ties to the even one.\<close>

definition rhe :: "rat \<Rightarrow> int" where
  "rhe x =
     (let f = \<lfloor>x\<rfloor>; d = x - of_int f
      in if d < 1 / 2 then f
         else if 1 / 2 < d then f + 1
         else if even f then f else f + 1)"

text \<open>The spacing of the doubles around \<open>q\<close>: 53 significant bits, and the fixed spacing
  \<open>2 powi - 1074\<close> of the subnormal range below \<open>2 powi - 1022\<close>.\<close>

definition expo :: "rat \<Rightarrow> int" where
  "expo q = max (ilog2 \<bar>q\<bar>) (- 1022)"

definition ulp :: "rat \<Rightarrow> rat" where
  "ulp q = 2 powi (expo q - 52)"

definition rdq :: "rat \<Rightarrow> rat" where
  "rdq q = (if q = 0 then 0 else sgn q * of_int (rhe (\<bar>q\<bar> / ulp q)) * ulp q)"

text \<open>A rounded value of magnitude \<open>2 ^ 1024\<close> or more overflows to an infinity.\<close>

definition huge :: rat where
  "huge = 2 ^ 1024"

definition rd :: "rat \<Rightarrow> jsnum" where
  "rd q =
     (let r = rdq q
      in if huge \<le> r then PInf else if r \<le> - huge then NInf else Fin r)"

definition is_double :: "rat \<Rightarrow> bool" where
  "is_double q = (rdq q = q \<and> \<bar>q\<bar> < huge)"

fun num_neg :: "jsnum \<Rightarrow> jsnum" where
  "num_neg (Fin a) = Fin (- a)"
| "num_neg PInf = NInf"
| "num_neg NInf = PInf"
| "num_neg NaN = NaN"

fun num_add :: "jsnum \<Rightarrow> jsnum \<Rightarrow> jsnum" where
  "num_add NaN _ = NaN"
| "num_add _ NaN = NaN"
| "num_add (Fin a) (Fin b) = rd (a + b)"
| "num_add PInf NInf = NaN"
| "num_add NInf PInf = NaN"
| "num_add PInf _ = PInf"
| "num_add NInf _ = NInf"
| "num_add (Fin a) b = b"

definition num_sub :: "jsnum \<Rightarrow> jsnum \<Rightarrow> jsnum" where
  "num_sub a b = num_add a (num_neg b)"

fun num_sgn :: "jsnum \<Rightarrow> rat" where
  "num_sgn (Fin a) = sgn a"
| "num_sgn PInf = 1"
| "num_sgn NInf = - 1"
| "num_sgn NaN = 0"

fun num_mul :: "jsnum \<Rightarrow> jsnum \<Rightarrow> jsnum" where
  "num_mul NaN _ = NaN"
| "num_mul _ NaN = NaN"
| "num_mul (Fin a) (Fin b) = rd (a * b)"
| "num_mul a b =
     (let s = num_sgn a * num_sgn b
      in if s = 0 then NaN else if 0 < s then PInf else NInf)"

text \<open>The remainder operator \<open>%\<close>: the result has the sign of the dividend and is exact.\<close>

fun num_rem :: "jsnum \<Rightarrow> jsnum \<Rightarrow> jsnum" where
  "num_rem (Fin n) (Fin d) =
     (if d = 0 then NaN
      else Fin (n - d * of_int (if 0 \<le> n / d then \<lfloor>n / d\<rfloor> else \<lceil>n / d\<rceil>)))"
| "num_rem (Fin n) PInf = Fin n"
| "num_rem (Fin n) NInf = Fin n"
| "num_rem _ _ = NaN"

text \<open>The comparison \<open><\<close>; every comparison with NaN is false.\<close>

fun num_lt :: "jsnum \<Rightarrow> jsnum \<Rightarrow> bool" where
  "num_lt (Fin a) (Fin b) = (a < b)"
| "num_lt (Fin a) PInf = True"
| "num_lt NInf (Fin b) = True"
| "num_lt NInf PInf = True"
| "num_lt _ _ = False"

fun num_le :: "jsnum \<Rightarrow> jsnum \<Rightarrow> bool" where
  "num_le NaN _ = False"
| "num_le _ NaN = False"
| "num_le a b = (a = b \<or> num_lt a b)"

fun isFinite :: "jsnum \<Rightarrow> bool" where
  "isFinite (Fin a) = True"
| "isFinite _ = False"

text \<open>Truthiness of a number, as \<open>||\<close> tests it: zero and NaN are falsy.\<close>

fun num_truthy :: "jsnum \<Rightarrow> bool" where
  "num_truthy (Fin a) = (a \<noteq> 0)"
| "num_truthy NaN = False"
| "num_truthy _ = True"

section \<open>JavaScript values and records\<close>

text \<open>
  The values a parsed sheet holds (\<open>sheet_to_json\<close> with \<open>defval: null\<close> yields strings,
  numbers, booleans and null) together with \<open>undefined\<close>, which reading an absent
  property gives. Strings are lists of code units below 256.
\<close>

datatype jsval = JUndefined | JNull | JBool bool | JNum jsnum | JStr string

text \<open>Strict equality \<open>===\<close> and the loose test \<open>== null\<close>.\<close>

fun strict_eq :: "jsval \<Rightarrow> jsval \<Rightarrow> bool" where
  "strict_eq JUndefined JUndefined = True"
| "strict_eq JNull JNull = True"
| "strict_eq (JBool a) (JBool b) = (a = b)"
| "strict_eq (JNum a) (JNum b) = (a \<noteq> NaN \<and> a = b)"
| "strict_eq (JStr a) (JStr b) = (a = b)"
| "strict_eq _ _ = False"

fun eq_null :: "jsval \<Rightarrow> bool" where
  "eq_null JUndefined = True"
| "eq_null JNull = True"
| "eq_null _ = False"

text \<open>The operator \<open>??\<close>.\<close>

definition nullish :: "jsval \<Rightarrow> jsval \<Rightarrow> jsval" where
  "nullish v d = (if eq_null v then d else v)"

subsection \<open>The conversion \<open>Number(v)\<close>\<close>

definition is_ws :: "char \<Rightarrow> bool" where
  "is_ws c = ((of_char c :: nat) \<in> {9, 10, 11, 12, 13, 32, 160})"

definition trim :: "string \<Rightarrow> string" where
  "trim s = rev (dropWhile is_ws (rev (dropWhile is_ws s)))"

definition digit_val :: "char \<Rightarrow> nat" where
  "digit_val c =
     (let n = of_char c
      in if 48 \<le> n \<and> n \<le> 57 then n - 48
         else if 97 \<le> n \<and> n \<le> 102 then n - 87
         else if 65 \<le> n \<and> n \<le> 70 then n - 55
         else 16)"

definition is_digit :: "nat \<Rightarrow> char \<Rightarrow> bool" where
  "is_digit b c = (digit_val c < b)"

definition digits_val :: "nat \<Rightarrow> string \<Rightarrow> nat" where
  "digits_val b s = foldl (\<lambda>a c. a * b + digit_val c) 0 s"

text \<open>\<open>0x\<close>, \<open>0o\<close> and \<open>0b\<close> literals: no sign, at least one digit.\<close>

definition radix_literal :: "string \<Rightarrow> nat option" where
  "radix_literal s =
     (case s of
        z # x # t \<Rightarrow>
          (let b = (if x = CHR ''x'' \<or> x = CHR ''X'' then 16
                    else if x = CHR ''o'' \<or> x = CHR ''O'' then 8
                    else if x = CHR ''b'' \<or> x = CHR ''B'' then 2 else (0::nat))
           in if z = CHR ''0'' \<and> 0 < b \<and> t \<noteq> [] \<and> list_all (is_digit b) t
              then Some (digits_val b t) else None)
      | _ \<Rightarrow> None)"

definition split_sign :: "string \<Rightarrow> bool \<times> string" where
  "split_sign s =
     (case s of
        [] \<Rightarrow> (False, [])
      | c # t \<Rightarrow> if c = CHR ''-'' then (True, t) else if c = CHR ''+'' then (False, t)
                 else (False, s))"

definition parse_exponent :: "string \<Rightarrow> int option" where
  "parse_exponent s =
     (case s of
        [] \<Rightarrow> Some 0
      | c # t \<Rightarrow>
          if c = CHR ''e'' \<or> c = CHR ''E''
          then (let (neg, ds) = split_sign t
                in if ds \<noteq> [] \<and> list_all (is_digit 10) ds
                   then Some (if neg then - int (digits_val 10 ds) else int (digits_val 10 ds))
                   else None)
          else None)"

text \<open>An unsigned decimal literal: digits, an optional fraction, an optional exponent; at
  least one digit before or after the point. The result is its exact value, which
  \<open>StringToNumber\<close> rounds to a double.\<close>

definition parse_unsigned :: "string \<Rightarrow> rat option" where
  "parse_unsigned s =
     (let ip = takeWhile (is_digit 10) s;
          r1 = dropWhile (is_digit 10) s;
          dot = (r1 \<noteq> [] \<and> hd r1 = CHR ''.'');
          fp = (if dot then takeWhile (is_digit 10) (tl r1) else []);
          r2 = (if dot then dropWhile (is_digit 10) (tl r1) else r1)
      in if ip = [] \<and> fp = [] then None
         else (case parse_exponent r2 of
                 None \<Rightarrow> None
               | Some e \<Rightarrow>
                   Some (of_nat (digits_val 10 (ip @ fp)) * 10 powi (e - int (length fp)))))"

definition StringToNumber :: "string \<Rightarrow> jsnum" where
  "StringToNumber str =
     (let s = trim str
      in if s = [] then Fin 0
         else (case radix_literal s of
                 Some n \<Rightarrow> rd (of_nat n)
               | None \<Rightarrow>
                   (let (neg, u) = split_sign s
                    in if u = ''Infinity'' then (if neg then NInf else PInf)
                       else (case parse_unsigned u of
                               None \<Rightarrow> NaN
                             | Some q \<Rightarrow> rd (if neg then - q else q)))))"

fun Number :: "jsval \<Rightarrow> jsnum" where
  "Number JUndefined = NaN"
| "Number JNull = Fin 0"
| "Number (JBool b) = (if b then Fin 1 else Fin 0)"
| "Number (JNum n) = n"
| "Number (JStr s) = StringToNumber s"

text \<open>\<open>Number.isFinite(v)\<close> does not convert: it is false for everything but a finite
  number.\<close>

fun Number_isFinite :: "jsval \<Rightarrow> bool" where
  "Number_isFinite (JNum n) = isFinite n"
| "Number_isFinite _ = False"

subsection \<open>Records\<close>

text \<open>
  A record (a plain object with string keys) is the list of its properties in insertion
  order. Reading an absent property gives \<open>undefined\<close>; assigning an existing property
  keeps its place, assigning a new one appends it. (An object lists keys that are array
  indices before the others; a record built from the keys of another in their order lists
  them the same way, so the order of a list stands for the order of the object.)
\<close>

type_synonym 'v obj = "(string \<times> 'v) list"

definition get_prop :: "jsval obj \<Rightarrow> string \<Rightarrow> jsval" where
  "get_prop r k = (case map_of r k of None \<Rightarrow> JUndefined | Some v \<Rightarrow> v)"

fun set_prop :: "'v obj \<Rightarrow> string \<Rightarrow> 'v \<Rightarrow> 'v obj" where
  "set_prop [] k v = [(k, v)]"
| "set_prop (p # ps) k v = (if fst p = k then (k, v) # ps else p # set_prop ps k v)"

definition Object_keys :: "'v obj \<Rightarrow> string list" where
  "Object_keys r = map fst r"

definition Object_values :: "'v obj \<Rightarrow> 'v list" where
  "Object_values r = map snd r"

section \<open>The flipbook program\<close>

subsection \<open>Constants\<close>

definition POINTS :: "string list" where
  "POINTS = [''A'', ''B'', ''C'', ''D'', ''E'', ''F'', ''G'', ''H'', ''I'', ''J'', ''K'']"

text \<open>A metric and its series definitions. The display-only fields (title, axis label,
  series label) play no part in the computations and are left out.\<close>

record series_def =
  keyRaw :: string
  keySm :: string

record metric =
  key :: string
  series :: "series_def list"

definition METRICS :: "metric list" where
  "METRICS =
     [\<lparr>key = ''disp'',
       series = [\<lparr>keyRaw = ''push_mm'', keySm = ''push_mm_smooth''\<rparr>,
                 \<lparr>keyRaw = ''slice_mm'', keySm = ''slice_mm_smooth''\<rparr>]\<rparr>,
      \<lparr>key = ''vel'',
       series = [\<lparr>keyRaw = ''push_mm_s'', keySm = ''push_mm_s_smooth''\<rparr>,
                 \<lparr>keyRaw = ''slice_mm_s'', keySm = ''slice_mm_s_smooth''\<rparr>]\<rparr>,
      \<lparr>key = ''theta'',
       series = [\<lparr>keyRaw = ''theta_deg'', keySm = ''theta_deg_smooth''\<rparr>]\<rparr>,
      \<lparr>key = ''ratio'',
       series = [\<lparr>keyRaw = ''ratio'', keySm = ''ratio_smooth''\<rparr>]\<rparr>]"

subsection \<open>Helpers\<close>

text \<open>
  A workbook is the mapping from sheet name to sheet, and a sheet is taken as the row
  records \<open>sheet_to_json\<close> reads from it (the parsing library is external). \<open>getSheet\<close>
  gives \<open>None\<close> for \<open>undefined\<close>, the sheet that is not there.
\<close>

type_synonym row = "jsval obj"
type_synonym workbook = "row list obj"

definition getSheet :: "workbook \<Rightarrow> string \<Rightarrow> row list option" where
  "getSheet workbook name = map_of workbook name"

definition toArray :: "row list option \<Rightarrow> row list" where
  "toArray x = (case x of None \<Rightarrow> [] | Some rows \<Rightarrow> rows)"

definition buildPointKey :: "string \<Rightarrow> string" where
  "buildPointKey p = ''per_step_'' @ p @ ''_smooth''"

definition numberOrNull :: "jsval \<Rightarrow> jsval" where
  "numberOrNull v =
     (if strict_eq v JNull \<or> strict_eq v JUndefined \<or> strict_eq v (JStr [])
      then JNull
      else (let n = Number v in if isFinite n then JNum n else JNull))"

definition formatTime :: "jsval \<Rightarrow> jsval" where
  "formatTime s = numberOrNull s"

text \<open>The test \<open>/t_k$/i\<close>: the key ends in \<open>t_k\<close>, in either case.\<close>

definition test_t_k :: "string \<Rightarrow> bool" where
  "test_t_k k =
     (case rev k of
        c # b # a # _ \<Rightarrow>
          (a = CHR ''t'' \<or> a = CHR ''T'') \<and> b = CHR ''_'' \<and> (c = CHR ''k'' \<or> c = CHR ''K'')
      | _ \<Rightarrow> False)"

definition coerceRow :: "row \<Rightarrow> row" where
  "coerceRow r =
     (let out = fold (\<lambda>k out. set_prop out k
                        (if test_t_k k then formatTime (get_prop r k)
                         else numberOrNull (get_prop r k)))
                  (Object_keys r) []
      in if eq_null (get_prop out ''t_k'') \<and> \<not> eq_null (get_prop r ''t'')
         then set_prop out ''t_k'' (numberOrNull (get_prop r ''t''))
         else out)"

definition coerceRows :: "row list \<Rightarrow> row list" where
  "coerceRows rows = map coerceRow rows"

subsection \<open>The domain engine\<close>

text \<open>One step of the running minimum and maximum:
  \<^verbatim>\<open>if (v != null && Number.isFinite(v)) { if (v < lo) lo = v; if (v > hi) hi = v; }\<close>\<close>

definition scan :: "jsval \<Rightarrow> jsnum \<times> jsnum \<Rightarrow> jsnum \<times> jsnum" where
  "scan v = (\<lambda>(lo, hi).
     if \<not> eq_null v \<and> Number_isFinite v
     then (let lo' = (if num_lt (Number v) lo then Number v else lo);
               hi' = (if num_lt hi (Number v) then Number v else hi)
           in (lo', hi'))
     else (lo, hi))"

text \<open>The end of each computation: the fallback when no finite value was seen, then the
  padding \<^verbatim>\<open>(hi - lo) * ratio || zpad\<close> on both sides.\<close>

definition padded ::
  "jsnum \<times> jsnum \<Rightarrow> jsnum \<Rightarrow> jsnum \<Rightarrow> jsnum \<times> jsnum \<Rightarrow> jsnum \<times> jsnum" where
  "padded fallback ratio zpad = (\<lambda>(lo, hi).
     let (lo, hi) = (if \<not> isFinite lo \<or> \<not> isFinite hi then fallback else (lo, hi));
         p = num_mul (num_sub hi lo) ratio;
         pad = (if num_truthy p then p else zpad)
     in (num_sub lo pad, num_add hi pad))"

definition pad_y :: "jsnum \<times> jsnum \<Rightarrow> jsnum \<times> jsnum" where
  "pad_y = padded (Fin (- 1), Fin 1) (rd (5 / 100)) (Fin 1)"

definition pad_x :: "jsnum \<times> jsnum \<Rightarrow> jsnum \<times> jsnum" where
  "pad_x = padded (Fin 0, Fin 1) (rd (2 / 100)) (rd (1 / 100))"

definition active_key :: "bool \<Rightarrow> series_def \<Rightarrow> string" where
  "active_key useSmoothed s = (if useSmoothed then keySm s else keyRaw s)"

definition computeGlobalDomains :: "row list obj \<Rightarrow> bool \<Rightarrow> (jsnum \<times> jsnum) obj" where
  "computeGlobalDomains pointData useSmoothed =
     fold (\<lambda>m domains.
        let lohi = fold (\<lambda>rows.
                     fold (\<lambda>r.
                       fold (\<lambda>s. scan (get_prop r (active_key useSmoothed s))) (series m))
                     rows)
                   (Object_values pointData) (PInf, NInf)
        in set_prop domains (key m) (pad_y lohi))
      METRICS []"

definition computeGlobalXDomain :: "row list obj \<Rightarrow> jsnum \<times> jsnum" where
  "computeGlobalXDomain pointData =
     pad_x (fold (\<lambda>rows. fold (\<lambda>r. scan (get_prop r ''t_k'')) rows)
              (Object_values pointData) (PInf, NInf))"

record local_domains =
  ydom :: "(jsnum \<times> jsnum) obj"
  xdom :: "jsnum \<times> jsnum"

definition computeLocalDomains :: "row list \<Rightarrow> bool \<Rightarrow> local_domains" where
  "computeLocalDomains rows useSmoothed =
     (let (y, t) =
        fold (\<lambda>m (y, t).
           let (t', lohi) =
             fold (\<lambda>r (t, lohi).
                (scan (get_prop r ''t_k'') t,
                 fold (\<lambda>s. scan (get_prop r (active_key useSmoothed s))) (series m) lohi))
               rows (t, (PInf, NInf))
           in (set_prop y (key m) (pad_y lohi), t'))
         METRICS ([], (PInf, NInf))
      in \<lparr>ydom = y, xdom = pad_x t\<rparr>)"

subsection \<open>The flipbook state\<close>

record test_result =
  name :: string
  ok :: bool
  detail :: "string option"

text \<open>The component's state. \<open>currentPoint\<close> is a value rather than a string, since
  \<open>step\<close> stores an array read that may be \<open>undefined\<close>.\<close>

record flipbook =
  wb :: "workbook option"
  pointSeries :: "row list obj"
  currentPoint :: jsval
  useSmoothed :: bool
  full :: bool
  lockAxes :: bool
  testResults :: "test_result list option"

definition initial :: flipbook where
  "initial = \<lparr>wb = None, pointSeries = [], currentPoint = JStr (hd POINTS),
     useSmoothed = True, full = False, lockAxes = True, testResults = None\<rparr>"

text \<open>\<open>indexOf\<close> compares with strict equality and gives \<open>-1\<close> when nothing matches; an
  array read at anything but an index in range gives \<open>undefined\<close>.\<close>

fun indexOf_from :: "int \<Rightarrow> jsval list \<Rightarrow> jsval \<Rightarrow> int" where
  "indexOf_from i [] v = - 1"
| "indexOf_from i (x # xs) v = (if strict_eq x v then i else indexOf_from (i + 1) xs v)"

definition indexOf :: "jsval list \<Rightarrow> jsval \<Rightarrow> jsnum" where
  "indexOf xs v = Fin (of_int (indexOf_from 0 xs v))"

fun at_index :: "string list \<Rightarrow> jsnum \<Rightarrow> jsval" where
  "at_index xs (Fin q) =
     (if q = of_int \<lfloor>q\<rfloor> \<and> 0 \<le> q \<and> q < of_nat (length xs) then JStr (xs ! nat \<lfloor>q\<rfloor>)
      else JUndefined)"
| "at_index xs _ = JUndefined"

definition step_point :: "jsnum \<Rightarrow> jsval \<Rightarrow> jsval" where
  "step_point delta p =
     (let idx = indexOf (map JStr POINTS) p;
          len = Fin (of_nat (length POINTS));
          next = num_rem (num_add (num_add idx delta) len) len
      in at_index POINTS next)"

definition step :: "jsnum \<Rightarrow> flipbook \<Rightarrow> flipbook" where
  "step delta st = st\<lparr>currentPoint := step_point delta (currentPoint st)\<rparr>"

subsection \<open>The point series resolver\<close>

text \<open>
  \<^verbatim>\<open>.sort((a, b) => (a.t_k ?? 0) - (b.t_k ?? 0))\<close>. The sort of an array is stable, and
  an element moves behind another only when the comparator is positive; on a comparator
  that orders its inputs consistently, as a difference of finite numbers does, that is
  insertion from the right.
\<close>

definition compare_t_k :: "row \<Rightarrow> row \<Rightarrow> jsnum" where
  "compare_t_k a b =
     num_sub (Number (nullish (get_prop a ''t_k'') (JNum (Fin 0))))
             (Number (nullish (get_prop b ''t_k'') (JNum (Fin 0))))"

fun insert_by :: "('a \<Rightarrow> 'a \<Rightarrow> jsnum) \<Rightarrow> 'a \<Rightarrow> 'a list \<Rightarrow> 'a list" where
  "insert_by cmp a [] = [a]"
| "insert_by cmp a (b # bs) =
     (if num_lt (Fin 0) (cmp a b) then b # insert_by cmp a bs else a # b # bs)"

definition sort_by :: "('a \<Rightarrow> 'a \<Rightarrow> jsnum) \<Rightarrow> 'a list \<Rightarrow> 'a list" where
  "sort_by cmp xs = foldr (insert_by cmp) xs []"

text \<open>The body of the loop over the points, for one point \<open>P\<close>.\<close>

definition resolve_point :: "workbook \<Rightarrow> row list \<Rightarrow> string \<Rightarrow> row list" where
  "resolve_point wbLocal perStepAll P =
     (let smoothSheet = getSheet wbLocal (buildPointKey P)
      in if smoothSheet \<noteq> None
         then sort_by compare_t_k (coerceRows (toArray smoothSheet))
         else (let rows = filter (\<lambda>r. strict_eq (get_prop r ''Point'') (JStr P)) perStepAll
               in sort_by compare_t_k (coerceRows rows)))"

text \<open>\<open>onUpload\<close>, from the parsed workbook on (reading the file and parsing it are
  external; when they fail nothing below runs).\<close>

definition onUpload :: "workbook \<Rightarrow> flipbook \<Rightarrow> flipbook" where
  "onUpload wbLocal st =
     (let perStepAll = coerceRows (toArray (getSheet wbLocal ''per_step_all''));
          grouped = fold (\<lambda>P grouped. set_prop grouped P (resolve_point wbLocal perStepAll P))
                      POINTS []
      in st\<lparr>wb := Some wbLocal, pointSeries := grouped\<rparr>)"

section \<open>Notions used in the statements\<close>

text \<open>The finite numbers among the values a scan reads, in the order it reads them.\<close>

fun finite_values :: "jsval list \<Rightarrow> rat list" where
  "finite_values [] = []"
| "finite_values (JNum (Fin q) # vs) = q # finite_values vs"
| "finite_values (v # vs) = finite_values vs"

text \<open>What the scan for one metric reads from a sequence of rows (the active field of
  each of its series definitions), and what the time scan reads.\<close>

definition metric_reads :: "bool \<Rightarrow> metric \<Rightarrow> row list \<Rightarrow> jsval list" where
  "metric_reads us m rows =
     concat (map (\<lambda>r. map (\<lambda>s. get_prop r (active_key us s)) (series m)) rows)"

definition time_reads :: "row list \<Rightarrow> jsval list" where
  "time_reads rows = map (\<lambda>r. get_prop r ''t_k'') rows"

text \<open>The finite values a store contributes to a metric.\<close>

definition contributing :: "row list obj \<Rightarrow> bool \<Rightarrow> metric \<Rightarrow> rat list" where
  "contributing pointData us m =
     finite_values (metric_reads us m (concat (Object_values pointData)))"

text \<open>Well-formed data: every finite number in a row is a double; and the same with the
  magnitude bounded by \<open>2 ^ 45\<close>.\<close>

fun double_value :: "jsval \<Rightarrow> bool" where
  "double_value (JNum (Fin q)) = is_double q"
| "double_value v = True"

fun small_value :: "jsval \<Rightarrow> bool" where
  "small_value (JNum (Fin q)) = (rdq q = q \<and> \<bar>q\<bar> \<le> 2 ^ 45)"
| "small_value v = True"

definition all_values :: "(jsval \<Rightarrow> bool) \<Rightarrow> row list \<Rightarrow> bool" where
  "all_values P rows = list_all (\<lambda>r. list_all (\<lambda>kv. P (snd kv)) r) rows"

text \<open>A normalized value: the missing marker or a finite number.\<close>

definition coerced :: "jsval \<Rightarrow> bool" where
  "coerced v = (v = JNull \<or> (\<exists>q. v = JNum (Fin q)))"

text \<open>A number that is not negative: \<open>+Infinity\<close> or a finite number from 0 on.\<close>

definition ext_nonneg :: "jsnum \<Rightarrow> bool" where
  "ext_nonneg a = (a = PInf \<or> (\<exists>x. a = Fin x \<and> 0 \<le> x))"

text \<open>The rows of the two points of the self-test "Global domains aggregate across
  points", the scenario of two points with one row each.\<close>

definition dA :: row where
  "dA = [(''t_k'', JNum (Fin 0)), (''push_mm'', JNum (Fin 0)), (''slice_mm'', JNum (Fin 1)),
         (''push_mm_s'', JNum (Fin 0)), (''slice_mm_s'', JNum (Fin 2)),
         (''theta_deg'', JNum (Fin 10)), (''ratio'', JNum (Fin (1 / 2)))]"

definition dB :: row where
  "dB = [(''t_k'', JNum (Fin 1)), (''push_mm'', JNum (Fin 5)), (''slice_mm'', JNum (Fin (- 1))),
         (''push_mm_s'', JNum (Fin 3)), (''slice_mm_s'', JNum (Fin (- 2))),
         (''theta_deg'', JNum (Fin (- 20))), (''ratio'', JNum (Fin 2))]"

text \<open>An axis range that a chart can use: two finite bounds, the lower one strictly below
  the upper one.\<close>

fun proper :: "jsnum \<times> jsnum \<Rightarrow> bool" where
  "proper (Fin l, Fin h) = (l < h)"
| "proper d = False"

section \<open>Rounding to a double\<close>

text \<open>
  The facts about \<open>rdq\<close> that the claims rest on: it is monotone, it is odd, and it
  leaves every \<open>k * 2 powi j\<close> with \<open>\<bar>k\<bar> \<le> 2 ^ 53\<close> and \<open>- 1074 \<le> j\<close> as it is.
\<close>

lemma two_powi_less_iff: "(2::rat) powi a < 2 powi b \<longleftrightarrow> a < b"
proof
  assume "(2::rat) powi a < 2 powi b"
  show "a < b"
  proof (rule ccontr)
    assume "\<not> a < b"
    then have "b \<le> a" by simp
    then have "(2::rat) powi b \<le> 2 powi a" by (intro power_int_increasing) auto
    with \<open>(2::rat) powi a < 2 powi b\<close> show False by simp
  qed
next
  assume "a < b"
  then show "(2::rat) powi a < 2 powi b" by (intro power_int_strict_increasing) auto
qed

lemma two_powi_le_iff: "(2::rat) powi a \<le> 2 powi b \<longleftrightarrow> a \<le> b"
  using two_powi_less_iff [of b a] by (auto simp: not_less [symmetric])

lemma ilog2_bounds:
  assumes "0 < q"
  shows "2 powi ilog2 q \<le> q \<and> q < 2 powi (ilog2 q + 1)"
proof (cases "1 \<le> q")
  case True
  define N where "N = \<lfloor>q\<rfloor>"
  have N: "0 < N" using True by (simp add: N_def)
  have b1: "1 \<le> bitlen N" using N by (simp add: bitlen_alt_def)
  from bitlen_bounds [OF N] have lo: "2 ^ nat (bitlen N - 1) \<le> N" and hi: "N < 2 ^ nat (bitlen N)"
    by auto
  have "rat_of_int (2 ^ nat (bitlen N - 1)) \<le> of_int N" using lo by (simp only: of_int_le_iff)
  also have "\<dots> \<le> q" by (simp add: N_def)
  finally have l: "2 powi (bitlen N - 1) \<le> q" using b1 by (simp add: power_int_nonneg_exp)
  have "N + 1 \<le> 2 ^ nat (bitlen N)" using hi by simp
  then have "rat_of_int (N + 1) \<le> of_int (2 ^ nat (bitlen N))" by (simp only: of_int_le_iff)
  moreover have "q < of_int (N + 1)" unfolding N_def by linarith
  ultimately have "q < 2 powi (bitlen N)" using b1 by (simp add: power_int_nonneg_exp)
  with l True show ?thesis by (simp add: ilog2_def N_def)
next
  case False
  define N where "N = \<lfloor>1 / q\<rfloor>"
  define k where "k = bitlen N"
  from False assms have "1 < 1 / q" by simp
  then have N: "0 < N" by (simp add: N_def)
  have b1: "1 \<le> k" using N by (simp add: bitlen_alt_def k_def)
  from bitlen_bounds [OF N] have lo: "2 ^ nat (k - 1) \<le> N" and hi: "N < 2 ^ nat k"
    by (auto simp: k_def)
  have "rat_of_int (2 ^ nat (k - 1)) \<le> of_int N" using lo by (simp only: of_int_le_iff)
  also have "\<dots> \<le> 1 / q" by (simp add: N_def)
  finally have "2 ^ nat (k - 1) \<le> 1 / q" by simp
  then have u: "q * 2 ^ nat (k - 1) \<le> 1" using assms by (simp add: field_simps)
  have "N + 1 \<le> 2 ^ nat k" using hi by simp
  then have "rat_of_int (N + 1) \<le> of_int (2 ^ nat k)" by (simp only: of_int_le_iff)
  moreover have "1 / q < of_int (N + 1)" unfolding N_def by linarith
  ultimately have "1 / q < 2 ^ nat k" by simp
  then have l: "1 < q * 2 ^ nat k" using assms by (simp add: field_simps)
  have pk: "(2::rat) powi (- k) = 1 / 2 ^ nat k" using b1
    by (simp add: power_int_minus_divide power_int_nonneg_exp)
  have "(2::rat) powi (k - 1) = 2 ^ nat (k - 1)" using b1 by (simp add: power_int_nonneg_exp)
  then have pk1: "(2::rat) powi (- (k - 1)) = 1 / 2 ^ nat (k - 1)"
    by (simp only: power_int_minus_divide)
  have pk2: "(2::rat) ^ nat k = 2 * 2 ^ nat (k - 1)" using b1
    by (metis Suc_nat_eq_nat_zadd1 add.commute diff_add_cancel diff_ge_0_iff_ge power_Suc)
  show ?thesis
  proof (cases "q * 2 ^ nat (k - 1) = 1")
    case True
    then have e: "ilog2 q = - (k - 1)" using False by (simp add: ilog2_def N_def k_def Let_def)
    have "q = 1 / 2 ^ nat (k - 1)" using True by (simp add: field_simps)
    then have qe: "q = 2 powi (- (k - 1))" using pk1 by simp
    have "(2::rat) powi (- (k - 1)) < 2 powi (- (k - 1) + 1)"
      by (simp only: two_powi_less_iff)
    then show ?thesis unfolding e using qe by simp
  next
    case neq: False
    then have e: "ilog2 q = - k" using False by (simp add: ilog2_def N_def k_def Let_def)
    have "1 / 2 ^ nat k \<le> q" using l by (simp add: field_simps)
    then have "2 powi (- k) \<le> q" by (simp only: pk)
    moreover have "q < 2 powi (- k + 1)"
    proof -
      have *: "- k + 1 = - (k - 1)" by simp
      have "q * 2 ^ nat (k - 1) < 1" using u neq by simp
      then have "q < 1 / 2 ^ nat (k - 1)" by (simp add: field_simps)
      then have "q < 2 powi (- (k - 1))" by (simp only: pk1)
      then show ?thesis by (simp only: *)
    qed
    ultimately show ?thesis using e by simp
  qed
qed

lemma ilog2_unique:
  assumes "0 < q" "2 powi e \<le> q" "q < 2 powi (e + 1)"
  shows "ilog2 q = e"
proof -
  from ilog2_bounds [OF assms(1)] have a: "2 powi ilog2 q \<le> q" and b: "q < 2 powi (ilog2 q + 1)"
    by auto
  have "(2::rat) powi e < 2 powi (ilog2 q + 1)" using assms(2) b by simp
  then have "e < ilog2 q + 1" by (simp add: two_powi_less_iff)
  moreover have "(2::rat) powi ilog2 q < 2 powi (e + 1)" using assms(3) a by simp
  then have "ilog2 q < e + 1" by (simp add: two_powi_less_iff)
  ultimately show ?thesis by simp
qed

lemma ilog2_mono:
  assumes "0 < x" "x \<le> y"
  shows "ilog2 x \<le> ilog2 y"
proof -
  have "0 < y" using assms by simp
  from ilog2_bounds [OF assms(1)] ilog2_bounds [OF this]
  have "(2::rat) powi ilog2 x < 2 powi (ilog2 y + 1)" using assms(2) by simp
  then show ?thesis by (simp add: two_powi_less_iff)
qed

lemma rhe_of_int: "rhe (of_int n) = n"
  by (simp add: rhe_def)

lemma rhe_ge: "of_int n \<le> x \<Longrightarrow> n \<le> rhe x"
proof -
  assume "of_int n \<le> x"
  then have "n \<le> \<lfloor>x\<rfloor>" by (simp add: le_floor_iff)
  then show ?thesis by (simp add: rhe_def Let_def)
qed

lemma rhe_le: "x \<le> of_int n \<Longrightarrow> rhe x \<le> n"
proof -
  assume a: "x \<le> of_int n"
  show ?thesis
  proof (cases "x = of_int n")
    case True
    then show ?thesis by (simp add: rhe_of_int)
  next
    case False
    with a have "x < of_int n" by simp
    then have "\<lfloor>x\<rfloor> < n" by (simp add: floor_less_iff)
    then show ?thesis by (simp add: rhe_def Let_def)
  qed
qed

lemma rhe_mono: "x \<le> y \<Longrightarrow> rhe x \<le> rhe y"
proof -
  assume a: "x \<le> y"
  then have f: "\<lfloor>x\<rfloor> \<le> \<lfloor>y\<rfloor>" by (rule floor_mono)
  show ?thesis
  proof (cases "\<lfloor>x\<rfloor> = \<lfloor>y\<rfloor>")
    case True
    then have "x - of_int \<lfloor>x\<rfloor> \<le> y - of_int \<lfloor>y\<rfloor>" using a by simp
    then show ?thesis using True by (auto simp: rhe_def Let_def)
  next
    case False
    with f have "\<lfloor>x\<rfloor> + 1 \<le> \<lfloor>y\<rfloor>" by simp
    moreover have "rhe x \<le> \<lfloor>x\<rfloor> + 1" by (simp add: rhe_def Let_def)
    moreover have "\<lfloor>y\<rfloor> \<le> rhe y" by (simp add: rhe_def Let_def)
    ultimately show ?thesis by linarith
  qed
qed

lemma ulp_expo: "ulp q = 2 powi (expo q - 52)"
  by (simp add: ulp_def)

lemma ulp_pos: "0 < ulp q"
  by (simp add: ulp_def)

lemma ulp_minus: "ulp (- q) = ulp q"
  by (simp add: ulp_def expo_def)

lemma rdq_minus: "rdq (- q) = - rdq q"
  by (simp add: rdq_def ulp_minus)

lemma rdq_pos_eq: "0 < q \<Longrightarrow> rdq q = of_int (rhe (q / ulp q)) * ulp q"
  by (simp add: rdq_def)

lemma rdq_nonneg: "0 \<le> q \<Longrightarrow> 0 \<le> rdq q"
proof (cases "q = 0")
  case True
  then show ?thesis by (simp add: rdq_def)
next
  case False
  assume "0 \<le> q"
  with False have q: "0 < q" by simp
  have "0 \<le> q / ulp q" using q ulp_pos [of q] by simp
  then have "of_int 0 \<le> q / ulp q" by simp
  then have "0 \<le> rhe (q / ulp q)" by (rule rhe_ge)
  then show ?thesis using q ulp_pos [of q] by (simp add: rdq_pos_eq)
qed

lemma pow53: "(2::rat) powi (e + 1) = 2 ^ 53 * 2 powi (e - 52)"
proof -
  have "e + 1 = 53 + (e - 52)" by simp
  then have "(2::rat) powi (e + 1) = 2 powi 53 * 2 powi (e - 52)"
    by (metis power_int_add zero_neq_numeral)
  then show ?thesis by simp
qed

lemma pow52: "(2::rat) powi e = 2 ^ 52 * 2 powi (e - 52)"
proof -
  have "e = 52 + (e - 52)" by simp
  then have "(2::rat) powi e = 2 powi 52 * 2 powi (e - 52)"
    by (metis power_int_add zero_neq_numeral)
  then show ?thesis by simp
qed

lemma rdq_upper:
  assumes "0 < q"
  shows "rdq q \<le> 2 powi (expo q + 1)"
proof -
  have "ilog2 q \<le> expo q" using assms by (simp add: expo_def)
  then have "(2::rat) powi (ilog2 q + 1) \<le> 2 powi (expo q + 1)" by (simp add: two_powi_le_iff)
  with ilog2_bounds [OF assms] have "q < 2 powi (expo q + 1)" by simp
  then have "q < 2 ^ 53 * ulp q" by (simp only: ulp_expo pow53 [symmetric])
  then have "q / ulp q \<le> 2 ^ 53" using ulp_pos [of q] by (simp add: field_simps)
  then have "q / ulp q \<le> of_int (2 ^ 53)" by simp
  then have "rhe (q / ulp q) \<le> 2 ^ 53" by (rule rhe_le)
  then have "rat_of_int (rhe (q / ulp q)) \<le> of_int (2 ^ 53)" by (simp only: of_int_le_iff)
  then have "of_int (rhe (q / ulp q)) * ulp q \<le> 2 ^ 53 * ulp q"
    using ulp_pos [of q] by simp
  then show ?thesis using assms by (simp only: rdq_pos_eq ulp_expo pow53 [symmetric])
qed

lemma rdq_lower:
  assumes "0 < q" "- 1022 \<le> ilog2 q"
  shows "2 powi (expo q) \<le> rdq q"
proof -
  have e: "expo q = ilog2 q" using assms by (simp add: expo_def)
  with ilog2_bounds [OF assms(1)] have "2 powi (expo q) \<le> q" by simp
  then have "2 ^ 52 * ulp q \<le> q" by (simp only: ulp_expo pow52 [symmetric])
  then have "2 ^ 52 \<le> q / ulp q" using ulp_pos [of q] by (simp add: field_simps)
  then have "of_int (2 ^ 52) \<le> q / ulp q" by simp
  then have "2 ^ 52 \<le> rhe (q / ulp q)" by (rule rhe_ge)
  then have "rat_of_int (2 ^ 52) \<le> of_int (rhe (q / ulp q))" by (simp only: of_int_le_iff)
  then have "2 ^ 52 * ulp q \<le> of_int (rhe (q / ulp q)) * ulp q"
    using ulp_pos [of q] by simp
  then show ?thesis using assms by (simp only: rdq_pos_eq ulp_expo pow52 [symmetric])
qed

lemma expo_mono: "0 < x \<Longrightarrow> x \<le> y \<Longrightarrow> expo x \<le> expo y"
  using ilog2_mono [of x y] by (simp add: expo_def)

lemma rdq_mono_pos:
  assumes "0 < x" "x \<le> y"
  shows "rdq x \<le> rdq y"
proof (cases "expo x = expo y")
  case True
  then have u: "ulp x = ulp y" by (simp add: ulp_expo)
  have "x / ulp y \<le> y / ulp y" using assms ulp_pos [of y] by (simp add: divide_right_mono)
  then have "rhe (x / ulp y) \<le> rhe (y / ulp y)" by (rule rhe_mono)
  then have "rat_of_int (rhe (x / ulp y)) \<le> of_int (rhe (y / ulp y))" by (simp only: of_int_le_iff)
  then have "of_int (rhe (x / ulp y)) * ulp y \<le> of_int (rhe (y / ulp y)) * ulp y"
    using ulp_pos [of y] by simp
  then show ?thesis using assms u by (simp add: rdq_pos_eq)
next
  case False
  have y: "0 < y" using assms by simp
  from False expo_mono [OF assms] have lt: "expo x + 1 \<le> expo y" by simp
  then have "- 1022 < expo y" by (simp add: expo_def)
  then have "- 1022 \<le> ilog2 y" using y by (simp add: expo_def max_def split: if_splits)
  from rdq_lower [OF y this] have "2 powi (expo y) \<le> rdq y" .
  moreover have "rdq x \<le> 2 powi (expo x + 1)" using assms(1) by (rule rdq_upper)
  moreover have "(2::rat) powi (expo x + 1) \<le> 2 powi (expo y)" using lt
    by (simp only: two_powi_le_iff)
  ultimately show ?thesis by linarith
qed

lemma rdq_0: "rdq 0 = 0"
  by (simp add: rdq_def)

lemma rdq_mono: "x \<le> y \<Longrightarrow> rdq x \<le> rdq y"
proof -
  assume a: "x \<le> y"
  consider "0 < x" | "x \<le> 0" "0 \<le> y" | "y < 0" by linarith
  then show ?thesis
  proof cases
    case 1
    then show ?thesis using a by (rule rdq_mono_pos)
  next
    case 2
    have "0 \<le> rdq (- x)" using 2 by (intro rdq_nonneg) simp
    then have "rdq x \<le> 0" by (simp add: rdq_minus)
    moreover have "0 \<le> rdq y" using 2 by (intro rdq_nonneg)
    ultimately show ?thesis by simp
  next
    case 3
    then have "0 < - y" "- y \<le> - x" using a by simp_all
    then have "rdq (- y) \<le> rdq (- x)" by (rule rdq_mono_pos)
    then show ?thesis by (simp add: rdq_minus)
  qed
qed

lemma rdq_of_grid:
  assumes "0 < q" "q / ulp q = of_int N"
  shows "rdq q = q"
proof -
  have "rdq q = of_int N * ulp q" using assms by (simp add: rdq_pos_eq rhe_of_int)
  also have "\<dots> = q" using assms(2) ulp_pos [of q] by (simp add: field_simps)
  finally show ?thesis .
qed

lemma powi_nonneg_int: "0 \<le> n \<Longrightarrow> of_int k * (2::rat) powi n = of_int (k * 2 ^ nat n)"
  by (simp add: power_int_nonneg_exp)

lemma rdq_repr_pos:
  assumes k: "0 < k" "k \<le> 2 ^ 53" and j: "- 1074 \<le> j"
  shows "rdq (of_int k * 2 powi j) = of_int k * 2 powi j"
proof -
  define q :: rat where "q = of_int k * 2 powi j"
  define a where "a = ilog2 (of_int k)"
  have kq: "(0::rat) < of_int k" using k by simp
  have q: "0 < q" using k by (simp add: q_def)
  from ilog2_bounds [OF kq] have a1: "2 powi a \<le> rat_of_int k" and a2: "rat_of_int k < 2 powi (a + 1)"
    by (simp_all add: a_def)
  have "rat_of_int k \<le> of_int (2 ^ 53)" using k by (simp only: of_int_le_iff)
  then have k53: "rat_of_int k \<le> 2 powi 53" by simp
  with a1 have "(2::rat) powi a \<le> 2 powi 53" by linarith
  then have a53: "a \<le> 53" by (simp only: two_powi_le_iff)
  have "(2::rat) powi 0 \<le> of_int k" using k by simp
  with a2 have "(2::rat) powi 0 < 2 powi (a + 1)" by linarith
  then have a0: "0 \<le> a" by (simp only: two_powi_less_iff)
  have "2 powi (a + j) \<le> q" using a1 by (simp add: q_def power_int_add)
  moreover have "q < 2 powi (a + j + 1)"
  proof -
    have "a + j + 1 = (a + 1) + j" by simp
    then have "(2::rat) powi (a + j + 1) = 2 powi (a + 1) * 2 powi j"
      by (metis power_int_add zero_neq_numeral)
    then show ?thesis using a2 by (simp add: q_def)
  qed
  ultimately have iq: "ilog2 q = a + j" using q by (intro ilog2_unique) auto
  have qa: "\<bar>q\<bar> = q" using q by simp
  have E: "expo q = max (a + j) (- 1022)" by (simp add: expo_def qa iq)
  have div: "q / ulp q = of_int k * 2 powi (j - expo q + 52)"
  proof -
    define U :: rat where "U = 2 powi (expo q - 52)"
    define A :: rat where "A = 2 powi (j - expo q + 52)"
    have U0: "U \<noteq> 0" by (simp add: U_def)
    have "j = (j - expo q + 52) + (expo q - 52)" by simp
    then have "(2::rat) powi j = 2 powi (j - expo q + 52) * 2 powi (expo q - 52)"
      by (metis power_int_add zero_neq_numeral)
    then have "q = of_int k * (A * U)" by (simp only: q_def A_def U_def)
    moreover have "ulp q = U" by (simp only: ulp_expo U_def)
    ultimately have "q / ulp q = of_int k * A" using U0 by simp
    then show ?thesis by (simp only: A_def)
  qed
  have "\<exists>N. q / ulp q = of_int N"
  proof (cases "a + j < - 1022")
    case True
    then have "0 \<le> j - expo q + 52" using j by (simp add: E)
    from powi_nonneg_int [OF this] show ?thesis using div by metis
  next
    case False
    then have e: "j - expo q + 52 = 52 - a" by (simp add: E)
    show ?thesis
    proof (cases "a \<le> 52")
      case True
      then have "0 \<le> 52 - a" by simp
      from powi_nonneg_int [OF this] show ?thesis using div e by metis
    next
      case False
      with a53 have a: "a = 53" by simp
      with a1 k53 have "rat_of_int k = 2 powi 53" by simp
      then have "q / ulp q = 2 powi 53 * 2 powi (- 1)" using div e a by simp
      also have "\<dots> = of_int (2 ^ 52)" by simp
      finally show ?thesis by blast
    qed
  qed
  then obtain N where "q / ulp q = of_int N" by blast
  from rdq_of_grid [OF q this] show ?thesis by (simp add: q_def)
qed

lemma rdq_repr:
  assumes "\<bar>k\<bar> \<le> 2 ^ 53" "- 1074 \<le> j"
  shows "rdq (of_int k * 2 powi j) = of_int k * 2 powi j"
proof -
  consider "0 < k" | "k = 0" | "k < 0" by linarith
  then show ?thesis
  proof cases
    case 1
    then show ?thesis using assms by (intro rdq_repr_pos) auto
  next
    case 2
    then show ?thesis by (simp add: rdq_0)
  next
    case 3
    then have "rdq (of_int (- k) * 2 powi j) = of_int (- k) * 2 powi j"
      using assms by (intro rdq_repr_pos) auto
    then have "rdq (- (of_int k * 2 powi j)) = - (of_int k * 2 powi j)" by simp
    then show ?thesis by (simp only: rdq_minus)
  qed
qed

lemma rdq_of_int: "\<bar>k\<bar> \<le> 2 ^ 53 \<Longrightarrow> rdq (of_int k) = of_int k"
  using rdq_repr [of k 0] by simp

lemma rdq_pow2: "rdq (2 ^ n) = 2 ^ n"
  using rdq_repr [of 1 "int n"] by simp

lemma rdq_abs_le:
  assumes "\<bar>q\<bar> \<le> 2 ^ n"
  shows "\<bar>rdq q\<bar> \<le> 2 ^ n"
proof -
  have "rdq q \<le> rdq (2 ^ n)" using assms by (intro rdq_mono) simp
  moreover have "rdq (- (2 ^ n)) \<le> rdq q" using assms by (intro rdq_mono) simp
  ultimately show ?thesis by (simp add: rdq_minus rdq_pow2)
qed

lemma rd_Fin_abs: "\<bar>rdq q\<bar> < huge \<Longrightarrow> rd q = Fin (rdq q)"
  by (auto simp: rd_def Let_def)

lemma rd_Fin:
  assumes "\<bar>q\<bar> \<le> 2 ^ n" "n < 1024"
  shows "rd q = Fin (rdq q)"
proof -
  have "\<bar>rdq q\<bar> \<le> 2 ^ n" using assms(1) by (rule rdq_abs_le)
  moreover have "(2::rat) ^ n < huge" unfolding huge_def using assms(2)
    by (intro power_strict_increasing) simp_all
  ultimately have "\<bar>rdq q\<bar> < huge" by linarith
  then show ?thesis by (rule rd_Fin_abs)
qed

text \<open>Equations to compute \<open>rd\<close> and \<open>is_double\<close> with: the overflow test on the exponent.\<close>

lemma huge_le_abs_iff:
  assumes "r \<noteq> 0"
  shows "huge \<le> \<bar>r\<bar> \<longleftrightarrow> 1024 \<le> ilog2 \<bar>r\<bar>"
proof -
  have p: "0 < \<bar>r\<bar>" using assms by simp
  from ilog2_bounds [OF p] have a: "2 powi ilog2 \<bar>r\<bar> \<le> \<bar>r\<bar>" and b: "\<bar>r\<bar> < 2 powi (ilog2 \<bar>r\<bar> + 1)"
    by auto
  have e: "huge = 2 powi 1024" by (simp add: huge_def)
  show ?thesis
  proof
    assume "huge \<le> \<bar>r\<bar>"
    with b have "(2::rat) powi 1024 < 2 powi (ilog2 \<bar>r\<bar> + 1)" unfolding e by linarith
    then have "1024 < ilog2 \<bar>r\<bar> + 1" by (simp only: two_powi_less_iff)
    then show "1024 \<le> ilog2 \<bar>r\<bar>" by simp
  next
    assume "1024 \<le> ilog2 \<bar>r\<bar>"
    then have "(2::rat) powi 1024 \<le> 2 powi ilog2 \<bar>r\<bar>" by (simp only: two_powi_le_iff)
    with a show "huge \<le> \<bar>r\<bar>" unfolding e by linarith
  qed
qed

lemma rd_code [code]:
  "rd q =
     (let r = rdq q
      in if r = 0 then Fin 0
         else if 1024 \<le> ilog2 \<bar>r\<bar> then (if 0 < r then PInf else NInf)
         else Fin r)"
proof (cases "rdq q = 0")
  case True
  have "0 < huge" by (simp add: huge_def)
  then show ?thesis using True by (simp add: rd_def)
next
  case False
  have h: "0 < huge" by (simp add: huge_def)
  show ?thesis
  proof (cases "1024 \<le> ilog2 \<bar>rdq q\<bar>")
    case True
    then have "huge \<le> \<bar>rdq q\<bar>" using huge_le_abs_iff [OF False] by simp
    then have "(0 < rdq q \<and> huge \<le> rdq q) \<or> (\<not> 0 < rdq q \<and> rdq q \<le> - huge \<and> \<not> huge \<le> rdq q)"
      using h by linarith
    then show ?thesis unfolding rd_def Let_def using True False by auto
  next
    case nov: False
    then have "\<not> huge \<le> \<bar>rdq q\<bar>" using huge_le_abs_iff [OF False] by simp
    then have "\<bar>rdq q\<bar> < huge" by linarith
    then have "rd q = Fin (rdq q)" by (rule rd_Fin_abs)
    then show ?thesis using False nov by (simp add: Let_def)
  qed
qed

lemma is_double_code [code]:
  "is_double q = (rdq q = q \<and> (q = 0 \<or> ilog2 \<bar>q\<bar> < 1024))"
proof (cases "q = 0")
  case True
  have "0 < huge" by (simp add: huge_def)
  then show ?thesis using True by (simp add: is_double_def rdq_0)
next
  case False
  have "\<bar>q\<bar> < huge \<longleftrightarrow> \<not> huge \<le> \<bar>q\<bar>" by linarith
  then show ?thesis using False huge_le_abs_iff [OF False] by (simp add: is_double_def not_le)
qed

lemma rd_of_int: "\<bar>n\<bar> \<le> 2 ^ 53 \<Longrightarrow> rd (of_int n) = Fin (of_int n)"
proof -
  assume a: "\<bar>n\<bar> \<le> 2 ^ 53"
  then have "\<bar>rat_of_int n\<bar> \<le> of_int (2 ^ 53)" by (simp only: of_int_abs [symmetric] of_int_le_iff)
  then have "\<bar>rat_of_int n\<bar> \<le> 2 ^ 53" by simp
  then have "rd (of_int n) = Fin (rdq (of_int n))" by (rule rd_Fin) simp
  then show ?thesis using a by (simp add: rdq_of_int)
qed

section \<open>Value coercion and row normalization\<close>

lemma numberOrNull_cases: "numberOrNull v = JNull \<or> (\<exists>q. numberOrNull v = JNum (Fin q))"
  by (cases "Number v") (simp_all add: numberOrNull_def Let_def)

text \<open>
  Claim C5. Whatever value it is given, Value Coercion returns either the missing marker or
  a finite number, never NaN and never an infinity; it has a result for every value (the
  model has no error branch, as none of the conversions of the values of a sheet throws);
  and the empty string, null and undefined all give the missing marker.
\<close>

theorem numberOrNull_finite_or_missing:
  "(numberOrNull v = JNull \<or> (\<exists>q. numberOrNull v = JNum (Fin q)))
   \<and> numberOrNull (JStr []) = JNull
   \<and> numberOrNull JNull = JNull
   \<and> numberOrNull JUndefined = JNull"
  using numberOrNull_cases [of v] by (simp add: numberOrNull_def)

subsection \<open>Records built by assignment\<close>

lemma fold_set_prop_fresh:
  "distinct ks \<Longrightarrow> set ks \<inter> fst ` set acc = {} \<Longrightarrow>
   fold (\<lambda>k out. set_prop out k (h k)) ks acc = acc @ map (\<lambda>k. (k, h k)) ks"
proof (induction ks arbitrary: acc)
  case Nil
  then show ?case by simp
next
  case (Cons k ks)
  have sp: "set_prop acc k (h k) = acc @ [(k, h k)]" using Cons.prems(2)
    by (induction acc) auto
  have "fold (\<lambda>k out. set_prop out k (h k)) ks (acc @ [(k, h k)])
        = (acc @ [(k, h k)]) @ map (\<lambda>k. (k, h k)) ks"
    using Cons.prems by (intro Cons.IH) auto
  then show ?case by (simp add: sp)
qed

lemma fold_set_prop_distinct:
  "distinct ks \<Longrightarrow> fold (\<lambda>k out. set_prop out k (h k)) ks [] = map (\<lambda>k. (k, h k)) ks"
  using fold_set_prop_fresh [of ks "[]" h] by simp

subsection \<open>Normalized rows\<close>

lemma coerced_numberOrNull: "coerced (numberOrNull v)"
  using numberOrNull_cases [of v] by (simp add: coerced_def)

lemma set_set_prop: "set (set_prop xs k v) \<subseteq> insert (k, v) (set xs)"
  by (induction xs) auto

lemma fold_set_prop_values:
  "\<forall>kv \<in> set acc. Q (snd kv) \<Longrightarrow> \<forall>k. Q (h k) \<Longrightarrow>
   \<forall>kv \<in> set (fold (\<lambda>k out. set_prop out k (h k)) ks acc). Q (snd kv)"
proof (induction ks arbitrary: acc)
  case Nil
  then show ?case by simp
next
  case (Cons k ks)
  have "\<forall>kv \<in> set (set_prop acc k (h k)). Q (snd kv)"
    using Cons.prems set_set_prop [of acc k "h k"] by auto
  from Cons.IH [OF this Cons.prems(2)] show ?case by simp
qed

lemma coerceRow_fold:
  "fold (\<lambda>k out. set_prop out k
            (if test_t_k k then formatTime (get_prop r k) else numberOrNull (get_prop r k))) ks acc
   = fold (\<lambda>k out. set_prop out k (numberOrNull (get_prop r k))) ks acc"
  unfolding formatTime_def if_cancel ..

lemma coerceRow_values: "\<forall>kv \<in> set (coerceRow r). coerced (snd kv)"
proof -
  let ?out = "fold (\<lambda>k out. set_prop out k (numberOrNull (get_prop r k))) (Object_keys r) []"
  have a: "\<forall>kv \<in> set ?out. coerced (snd kv)"
    by (rule fold_set_prop_values) (simp_all add: coerced_numberOrNull)
  have "\<forall>kv \<in> set (set_prop ?out ''t_k'' (numberOrNull (get_prop r ''t''))). coerced (snd kv)"
    using a set_set_prop [of ?out "''t_k''" "numberOrNull (get_prop r ''t'')"]
    by (auto simp: coerced_numberOrNull)
  with a show ?thesis by (simp add: coerceRow_def coerceRow_fold Let_def)
qed

lemma get_prop_cases: "get_prop r k = JUndefined \<or> (k, get_prop r k) \<in> set r"
  by (auto simp: get_prop_def split: option.splits dest: map_of_SomeD)

lemma get_prop_coerceRow: "get_prop (coerceRow r) k \<noteq> JStr s"
  using get_prop_cases [of "coerceRow r" k] coerceRow_values [of r]
  by (auto simp: coerced_def)

lemma keys_set_prop:
  "map fst (set_prop xs k v) = (if k \<in> fst ` set xs then map fst xs else map fst xs @ [k])"
  by (induction xs) auto

lemma distinct_set_prop: "distinct (map fst xs) \<Longrightarrow> distinct (map fst (set_prop xs k v))"
  by (auto simp: keys_set_prop)

lemma distinct_fold_set_prop:
  "distinct (map fst acc) \<Longrightarrow> distinct (map fst (fold (\<lambda>k out. set_prop out k (h k)) ks acc))"
  by (induction ks arbitrary: acc) (simp_all add: distinct_set_prop)

lemma get_prop_set_prop:
  "get_prop (set_prop xs k v) k' = (if k' = k then v else get_prop xs k')"
  by (induction xs) (auto simp: get_prop_def)

lemma get_prop_fold_set_prop:
  "get_prop (fold (\<lambda>k out. set_prop out k (h k)) ks acc) k' =
     (if k' \<in> set ks then h k' else get_prop acc k')"
  by (induction ks arbitrary: acc) (auto simp: get_prop_set_prop)

lemma get_prop_Nil: "get_prop [] k = JUndefined"
  by (simp add: get_prop_def)

lemma numberOrNull_coerced: "coerced v \<Longrightarrow> numberOrNull v = v"
  by (auto simp: coerced_def numberOrNull_def)

lemma eq_null_numberOrNull: "eq_null v \<Longrightarrow> eq_null (numberOrNull v)"
  by (cases v) (simp_all add: numberOrNull_def)

lemma coerceRow_distinct: "distinct (map fst (coerceRow r))"
  by (simp add: coerceRow_def coerceRow_fold Let_def distinct_set_prop distinct_fold_set_prop)

lemma coerceRow_time:
  "\<not> eq_null (get_prop (coerceRow r) ''t'') \<Longrightarrow> \<not> eq_null (get_prop (coerceRow r) ''t_k'')"
  using eq_null_numberOrNull [of "get_prop r ''t''"]
  by (auto simp: coerceRow_def coerceRow_fold Let_def get_prop_set_prop get_prop_fold_set_prop
        get_prop_Nil split: if_splits)

lemma coerceRow_fixed:
  assumes d: "distinct (map fst x)" and c: "\<forall>kv \<in> set x. coerced (snd kv)"
    and t: "\<not> eq_null (get_prop x ''t'') \<Longrightarrow> \<not> eq_null (get_prop x ''t_k'')"
  shows "coerceRow x = x"
proof -
  have "map (\<lambda>k. (k, numberOrNull (get_prop x k))) (map fst x) = map (\<lambda>kv. kv) x"
    unfolding map_map
  proof (rule map_cong [OF refl])
    fix kv assume kv: "kv \<in> set x"
    then have "map_of x (fst kv) = Some (snd kv)" using d by simp
    then have "get_prop x (fst kv) = snd kv" by (simp add: get_prop_def)
    then show "((\<lambda>k. (k, numberOrNull (get_prop x k))) \<circ> fst) kv = kv"
      using c kv by (simp add: numberOrNull_coerced)
  qed
  then have "fold (\<lambda>k out. set_prop out k (numberOrNull (get_prop x k))) (Object_keys x) [] = x"
    using d by (simp add: Object_keys_def fold_set_prop_distinct)
  then show ?thesis using t by (auto simp: coerceRow_def coerceRow_fold Let_def)
qed

lemma coerceRow_idem: "coerceRow (coerceRow r) = coerceRow r"
  by (intro coerceRow_fixed coerceRow_distinct coerceRow_values coerceRow_time)

text \<open>
  Claim C10. Normalizing rows that are already normalized gives the same rows: the same
  keys in the same order, with the same values.
\<close>

theorem coerceRows_idempotent: "coerceRows (coerceRows rows) = coerceRows rows"
  by (simp add: coerceRows_def coerceRow_idem)

section \<open>The point series resolver\<close>

lemma distinct_POINTS: "distinct POINTS"
  by (simp add: POINTS_def)

text \<open>
  Claim C8. After an upload the store is the list that maps every point of the fixed set,
  in order, to the series resolved from the new workbook. It is the same whatever the state
  before was, so nothing of the prior store remains; the current point, the smoothed flag
  and the locked flag are as they were.
\<close>

theorem onUpload_replaces_store:
  "pointSeries (onUpload w st) =
     map (\<lambda>P. (P, resolve_point w (coerceRows (toArray (getSheet w ''per_step_all''))) P)) POINTS
   \<and> pointSeries (onUpload w st) = pointSeries (onUpload w st')
   \<and> currentPoint (onUpload w st) = currentPoint st
   \<and> useSmoothed (onUpload w st) = useSmoothed st
   \<and> lockAxes (onUpload w st) = lockAxes st"
  by (simp add: onUpload_def Let_def fold_set_prop_distinct [OF distinct_POINTS])

lemma filter_Point_coerced:
  "filter (\<lambda>r. strict_eq (get_prop r ''Point'') (JStr P)) (coerceRows rows) = []"
proof -
  have "\<not> strict_eq (get_prop (coerceRow r) ''Point'') (JStr P)" for r
    using get_prop_coerceRow [of r "''Point''"]
    by (cases "get_prop (coerceRow r) ''Point''") simp_all
  then show ?thesis by (simp add: coerceRows_def filter_empty_conv)
qed

lemma resolve_point_fallback:
  "getSheet w (buildPointKey P) = None \<Longrightarrow> resolve_point w (coerceRows rows) P = []"
proof -
  have "coerceRows [] = []" by (simp add: coerceRows_def)
  moreover assume "getSheet w (buildPointKey P) = None"
  ultimately show ?thesis
    by (simp add: resolve_point_def Let_def filter_Point_coerced sort_by_def)
qed

text \<open>
  Claim C1, at a workbook that has only the combined sheet, with one row whose \<open>Point\<close> is
  \<open>A\<close>: the series resolved for \<open>A\<close> is empty. The combined sheet is normalized before it
  is filtered, which turns the \<open>Point\<close> column into the missing marker
  (\<open>filter_Point_coerced\<close>), so the row does not reach the series of its point.
\<close>

theorem combined_sheet_rows_dropped:
  "map_of (pointSeries (onUpload
      [(''per_step_all'',
        [[(''Point'', JStr ''A''), (''t_k'', JNum (Fin 0)), (''push_mm'', JNum (Fin 1))]])]
      initial)) ''A'' = Some []"
  by code_simp

section \<open>Navigation\<close>

lemma num_add_int:
  "\<bar>a + b\<bar> \<le> 2 ^ 53 \<Longrightarrow> num_add (Fin (of_int a)) (Fin (of_int b)) = Fin (of_int (a + b))"
  using rd_of_int [of "a + b"] by simp

lemma num_rem_int:
  assumes "0 \<le> n" "0 < d"
  shows "num_rem (Fin (of_int n)) (Fin (of_int d)) = Fin (of_int (n mod d))"
proof -
  have "(0::rat) \<le> of_int n / of_int d" using assms by simp
  moreover have "\<lfloor>rat_of_int n / of_int d\<rfloor> = n div d" by (rule floor_divide_of_int_eq)
  moreover have "n - d * (n div d) = n mod d" by (simp add: minus_mult_div_eq_mod)
  then have "rat_of_int n - of_int d * of_int (n div d) = of_int (n mod d)"
    by (metis of_int_diff of_int_mult)
  ultimately show ?thesis using assms by simp
qed

lemma at_index_int:
  "0 \<le> n \<Longrightarrow> n < int (length xs) \<Longrightarrow> at_index xs (Fin (of_int n)) = JStr (xs ! nat n)"
  by simp

lemma indexOf_from_nth:
  "distinct xs \<Longrightarrow> i < length xs \<Longrightarrow>
   indexOf_from k (map JStr xs) (JStr (xs ! i)) = k + int i"
proof (induction xs arbitrary: i k)
  case Nil
  then show ?case by simp
next
  case (Cons x xs)
  show ?case
  proof (cases i)
    case 0
    then show ?thesis by simp
  next
    case (Suc j)
    then have "x \<noteq> xs ! j" using Cons.prems by auto
    moreover have "indexOf_from (k + 1) (map JStr xs) (JStr (xs ! j)) = k + 1 + int j"
      using Cons.prems Suc by (intro Cons.IH) auto
    ultimately show ?thesis using Suc by simp
  qed
qed

lemma indexOf_POINTS:
  "i < length POINTS \<Longrightarrow> indexOf (map JStr POINTS) (JStr (POINTS ! i)) = Fin (of_int (int i))"
  by (simp add: indexOf_def indexOf_from_nth distinct_POINTS)

lemma length_POINTS: "length POINTS = 11"
  by (simp add: POINTS_def)

lemma step_point_int:
  assumes i: "i < length POINTS" and lo: "- 11 \<le> d" and hi: "d \<le> 2 ^ 53 - 21"
  shows "step_point (Fin (of_int d)) (JStr (POINTS ! i)) = JStr (POINTS ! nat ((int i + d) mod 11))"
proof -
  have i11: "int i < 11" using i by (simp add: length_POINTS)
  have a1: "num_add (Fin (of_int (int i))) (Fin (of_int d)) = Fin (of_int (int i + d))"
    using i11 lo hi by (intro num_add_int) simp
  have a2: "num_add (Fin (of_int (int i + d))) (Fin (of_int 11)) = Fin (of_int (int i + d + 11))"
    using i11 lo hi by (intro num_add_int) simp
  have r: "num_rem (Fin (of_int (int i + d + 11))) (Fin (of_int 11))
           = Fin (of_int ((int i + d + 11) mod 11))"
    using lo by (intro num_rem_int) simp_all
  have m: "(int i + d + 11) mod 11 = (int i + d) mod 11" by simp
  have b: "0 \<le> (int i + d) mod 11" "(int i + d) mod 11 < int (length POINTS)"
    by (simp_all add: length_POINTS)
  have len: "Fin (of_nat (length POINTS)) = Fin (of_int 11)" by (simp add: length_POINTS)
  show ?thesis
    unfolding step_point_def Let_def indexOf_POINTS [OF i] len a1 a2 r m
    by (rule at_index_int [OF b])
qed

lemma step_point_next:
  "i < length POINTS \<Longrightarrow>
   step_point (Fin 1) (JStr (POINTS ! i)) = JStr (POINTS ! ((i + 1) mod 11))"
  using step_point_int [of i 1] by (simp add: nat_mod_distrib nat_add_distrib)

lemma step_point_prev:
  "i < length POINTS \<Longrightarrow>
   step_point (Fin (- 1)) (JStr (POINTS ! i)) = JStr (POINTS ! ((i + 10) mod 11))"
proof -
  assume i: "i < length POINTS"
  have "int i + 10 = (int i + - 1) + 11" by simp
  then have "(int i + - 1) mod 11 = (int i + 10) mod 11" by (simp only: mod_add_self2)
  then have "nat ((int i + - 1) mod 11) = (i + 10) mod 11"
    by (simp add: nat_mod_distrib nat_add_distrib)
  with step_point_int [OF i, of "- 1"] show ?thesis by simp
qed

lemma step_point_iter:
  "i < length POINTS \<Longrightarrow>
   (step_point (Fin 1) ^^ n) (JStr (POINTS ! i)) = JStr (POINTS ! ((i + n) mod 11))"
proof (induction n)
  case 0
  then show ?case by (simp add: length_POINTS)
next
  case (Suc n)
  have "(i + n) mod 11 < length POINTS" by (simp add: length_POINTS)
  from step_point_next [OF this] Suc show ?case by (simp add: mod_simps)
qed

lemma step_iter:
  "(step delta ^^ n) st = st\<lparr>currentPoint := (step_point delta ^^ n) (currentPoint st)\<rparr>"
  by (induction n) (simp_all add: step_def)

text \<open>
  Claim C7. From any current point of the fixed set, as many single steps forward as there
  are points lead back to the same state, and a step back undoes a step forward, in either
  order.
\<close>

theorem single_steps_cycle:
  assumes "p \<in> set POINTS" "currentPoint st = JStr p"
  shows "(step (Fin 1) ^^ length POINTS) st = st
    \<and> step (Fin (- 1)) (step (Fin 1) st) = st
    \<and> step (Fin 1) (step (Fin (- 1)) st) = st"
proof -
  from assms(1) obtain i where i: "i < length POINTS" and p: "p = POINTS ! i"
    by (auto simp: in_set_conv_nth)
  have c: "currentPoint st = JStr (POINTS ! i)" using assms(2) p by simp
  have i11: "i < 11" using i by (simp add: length_POINTS)
  have n: "Suc i mod 11 < length POINTS" "(i + 10) mod 11 < length POINTS"
    by (simp_all add: length_POINTS)
  have m1: "(Suc i mod 11 + 10) mod 11 = i" using i11 by (simp add: mod_simps)
  have m2: "Suc ((i + 10) mod 11) mod 11 = i" using i11 by (simp add: mod_simps)
  have e: "st\<lparr>currentPoint := JStr (POINTS ! i)\<rparr> = st" by (simp add: c [symmetric])
  have "(step (Fin 1) ^^ length POINTS) st = st"
    using i11 by (simp add: step_iter c step_point_iter [OF i] length_POINTS e)
  moreover have "step (Fin (- 1)) (step (Fin 1) st) = st"
    by (simp add: step_def c step_point_next [OF i] step_point_prev [OF n(1)] m1 e)
  moreover have "step (Fin 1) (step (Fin (- 1)) st) = st"
    by (simp add: step_def c step_point_prev [OF i] step_point_next [OF n(2)] m2 e)
  ultimately show ?thesis by simp
qed

theorem single_steps_cycle_witness:
  "''A'' \<in> set POINTS \<and> currentPoint initial = JStr ''A''
   \<and> (step (Fin 1) ^^ length POINTS) initial = initial
   \<and> step (Fin (- 1)) (step (Fin 1) initial) = initial
   \<and> step (Fin 1) (step (Fin (- 1)) initial) = initial"
proof -
  have a: "''A'' \<in> set POINTS" by (simp add: POINTS_def)
  have b: "currentPoint initial = JStr ''A''" by (simp add: initial_def POINTS_def)
  from single_steps_cycle [OF a b] a b show ?thesis by simp
qed

text \<open>
  Claim C6, as the code has it. For a current point of the fixed set and an integer
  \<open>delta\<close> from \<open>-11\<close> up to \<open>2 ^ 53 - 21\<close> (the range in which the sum
  \<open>idx + delta + 11\<close> is not negative and is computed exactly), \<open>step\<close> moves to the
  point whose index is the current index plus \<open>delta\<close> modulo the number of points, a
  member of the fixed set.
\<close>

theorem step_wraps:
  assumes "i < length POINTS" "currentPoint st = JStr (POINTS ! i)"
    and "- 11 \<le> d" "d \<le> 2 ^ 53 - 21"
  shows "currentPoint (step (Fin (of_int d)) st)
           = JStr (POINTS ! nat ((int i + d) mod int (length POINTS)))
    \<and> currentPoint (step (Fin (of_int d)) st) \<in> JStr ` set POINTS"
proof -
  have "nat ((int i + d) mod 11) < length POINTS" by (simp add: length_POINTS)
  then have "POINTS ! nat ((int i + d) mod 11) \<in> set POINTS" by (rule nth_mem)
  then show ?thesis
    using step_point_int [OF assms(1,3,4)] by (simp add: step_def assms(2) length_POINTS)
qed

theorem step_wraps_witness:
  "(0::nat) < length POINTS \<and> currentPoint initial = JStr (POINTS ! 0)
   \<and> - 11 \<le> (- 3 :: int) \<and> (- 3 :: int) \<le> 2 ^ 53 - 21
   \<and> currentPoint (step (Fin (of_int (- 3))) initial) = JStr ''I''
   \<and> currentPoint (step (Fin (of_int (- 3))) initial) \<in> JStr ` set POINTS"
proof -
  have a: "(0::nat) < length POINTS" by (simp add: POINTS_def)
  have b: "currentPoint initial = JStr (POINTS ! 0)" by (simp add: initial_def POINTS_def)
  have c: "- 11 \<le> (- 3 :: int)" "(- 3 :: int) \<le> 2 ^ 53 - 21" by simp_all
  have "nat ((int 0 + - 3) mod int (length POINTS)) = 8" by (simp add: length_POINTS)
  moreover have "POINTS ! 8 = ''I''" by (simp add: POINTS_def)
  ultimately have i: "POINTS ! nat ((int 0 + - 3) mod int (length POINTS)) = ''I''" by simp
  from step_wraps [OF a b c] have
    r1: "currentPoint (step (Fin (of_int (- 3))) initial) = JStr ''I''" and
    r2: "currentPoint (step (Fin (of_int (- 3))) initial) \<in> JStr ` set POINTS"
    unfolding i by blast+
  from a b c r1 r2 show ?thesis by (intro conjI)
qed

text \<open>Claim C6 as stated fails for a step of twelve back from the first point: the
  remainder is \<open>-1\<close>, and the array read at \<open>-1\<close> is \<open>undefined\<close>.\<close>

theorem step_back_twelve_undefined:
  "currentPoint (step (Fin (of_int (- 12))) initial) = JUndefined"
  by code_simp

section \<open>The domain engine\<close>

subsection \<open>The computations as scans of the values they read\<close>

lemma fold_set_prop_keyed_fresh:
  "distinct (map kf xs) \<Longrightarrow> kf ` set xs \<inter> fst ` set acc = {} \<Longrightarrow>
   fold (\<lambda>x out. set_prop out (kf x) (h x)) xs acc = acc @ map (\<lambda>x. (kf x, h x)) xs"
proof (induction xs arbitrary: acc)
  case Nil
  then show ?case by simp
next
  case (Cons x xs)
  have sp: "set_prop acc (kf x) (h x) = acc @ [(kf x, h x)]" using Cons.prems(2)
    by (induction acc) auto
  have "fold (\<lambda>x out. set_prop out (kf x) (h x)) xs (acc @ [(kf x, h x)])
        = (acc @ [(kf x, h x)]) @ map (\<lambda>x. (kf x, h x)) xs"
    using Cons.prems by (intro Cons.IH) auto
  then show ?case by (simp add: sp)
qed

lemma fold_set_prop_keyed:
  "distinct (map kf xs) \<Longrightarrow>
   fold (\<lambda>x out. set_prop out (kf x) (h x)) xs [] = map (\<lambda>x. (kf x, h x)) xs"
  using fold_set_prop_keyed_fresh [of kf xs "[]" h] by simp

lemma distinct_METRICS: "distinct (map key METRICS)"
  by (simp add: METRICS_def)

lemma fold_fold_concat: "fold (\<lambda>x. fold f (h x)) xs s = fold f (concat (map h xs)) s"
  by (induction xs arbitrary: s) simp_all

lemma fold_series: "fold (\<lambda>s. scan (g s)) ss st = fold scan (map g ss) st"
  by (simp add: fold_map comp_def)

lemma scan_metric_rows:
  "fold (\<lambda>r. fold (\<lambda>s. scan (get_prop r (active_key us s))) (series m)) rows st
   = fold scan (metric_reads us m rows) st"
proof -
  have "fold (\<lambda>r. fold (\<lambda>s. scan (get_prop r (active_key us s))) (series m)) rows st
        = fold (\<lambda>r. fold scan (map (\<lambda>s. get_prop r (active_key us s)) (series m))) rows st"
    by (simp add: fold_map comp_def)
  also have "\<dots> = fold scan (metric_reads us m rows) st"
    unfolding metric_reads_def by (rule fold_fold_concat)
  finally show ?thesis .
qed

lemma scan_time_rows:
  "fold (\<lambda>r. scan (get_prop r ''t_k'')) rows st = fold scan (time_reads rows) st"
  by (simp add: time_reads_def fold_map comp_def)

lemma computeGlobalDomains_eq:
  "computeGlobalDomains pointData us =
     map (\<lambda>m. (key m, pad_y (fold scan (metric_reads us m (concat (Object_values pointData)))
                                (PInf, NInf)))) METRICS"
proof -
  have "fold (\<lambda>rows. fold (\<lambda>r. fold (\<lambda>s. scan (get_prop r (active_key us s))) (series m)) rows)
          rowss st
        = fold scan (metric_reads us m (concat rowss)) st" for m rowss st
    by (induction rowss arbitrary: st) (simp_all add: scan_metric_rows metric_reads_def)
  then show ?thesis
    by (simp add: computeGlobalDomains_def Let_def fold_set_prop_keyed [OF distinct_METRICS])
qed

lemma computeGlobalXDomain_eq:
  "computeGlobalXDomain pointData =
     pad_x (fold scan (time_reads (concat (Object_values pointData))) (PInf, NInf))"
proof -
  have "fold (\<lambda>rows. fold (\<lambda>r. scan (get_prop r ''t_k'')) rows) rowss st
        = fold scan (time_reads (concat rowss)) st" for rowss st
    by (induction rowss arbitrary: st) (simp_all add: scan_time_rows time_reads_def)
  then show ?thesis by (simp add: computeGlobalXDomain_def)
qed

lemma fold_pair:
  "fold (\<lambda>r (t, lohi). (A r t, B r lohi)) rows (t0, l0) = (fold A rows t0, fold B rows l0)"
  by (induction rows arbitrary: t0 l0) simp_all

lemma local_metric_step:
  "(\<lambda>m (y, t).
      let (t', lohi) =
        fold (\<lambda>r (t, lohi).
           (scan (get_prop r ''t_k'') t,
            fold (\<lambda>s. scan (get_prop r (active_key us s))) (series m) lohi))
          rows (t, (PInf, NInf))
      in (set_prop y (key m) (pad_y lohi), t'))
   = (\<lambda>m (y, t).
        (set_prop y (key m) (pad_y (fold scan (metric_reads us m rows) (PInf, NInf))),
         fold scan (time_reads rows) t))"
  by (simp add: fold_pair scan_metric_rows scan_time_rows)

lemma fold_two:
  "fold (\<lambda>m (y, t). (F m y, G t)) ms (y0, t0) = (fold F ms y0, (G ^^ length ms) t0)"
  by (induction ms arbitrary: y0 t0) (simp_all add: funpow_swap1)

lemma computeLocalDomains_eq:
  "computeLocalDomains rows us =
     \<lparr>ydom = map (\<lambda>m. (key m, pad_y (fold scan (metric_reads us m rows) (PInf, NInf)))) METRICS,
      xdom = pad_x ((fold scan (time_reads rows) ^^ length METRICS) (PInf, NInf))\<rparr>"
  unfolding computeLocalDomains_def local_metric_step
  by (simp add: fold_two fold_set_prop_keyed [OF distinct_METRICS])

subsection \<open>The result of a scan\<close>

lemma scan_Fin:
  "scan (JNum (Fin q)) (lo, hi) =
     (if num_lt (Fin q) lo then Fin q else lo, if num_lt hi (Fin q) then Fin q else hi)"
  by (simp add: scan_def Let_def)

lemma scan_other: "finite_values [v] = [] \<Longrightarrow> scan v st = st"
  by (cases "(v # [])" rule: finite_values.cases) (auto simp: scan_def split: prod.splits)

lemma finite_values_Cons:
  "finite_values (v # vs) = finite_values [v] @ finite_values vs"
  by (cases "(v # vs)" rule: finite_values.cases) simp_all

lemma finite_values_single: "finite_values [v] = [] \<or> (\<exists>q. v = JNum (Fin q))"
  by (cases "[v]" rule: finite_values.cases) simp_all

lemma finite_values_append:
  "finite_values (xs @ ys) = finite_values xs @ finite_values ys"
proof (induction xs)
  case Nil
  then show ?case by simp
next
  case (Cons x xs)
  then show ?case
    using finite_values_Cons [of x "xs @ ys"] finite_values_Cons [of x xs] by simp
qed

lemma fold_scan_Fin:
  "fold scan vs (Fin a, Fin b) =
     (Fin (fold min (finite_values vs) a), Fin (fold max (finite_values vs) b))"
proof (induction vs arbitrary: a b)
  case Nil
  then show ?case by simp
next
  case (Cons v vs)
  from finite_values_single [of v] show ?case
  proof
    assume e: "finite_values [v] = []"
    then have "finite_values (v # vs) = finite_values vs"
      using finite_values_Cons [of v vs] by simp
    then show ?thesis using Cons scan_other [OF e] by simp
  next
    assume "\<exists>q. v = JNum (Fin q)"
    then obtain q where v: "v = JNum (Fin q)" by blast
    have "scan v (Fin a, Fin b) = (Fin (min q a), Fin (max q b))"
      by (auto simp: v scan_Fin min_def max_def)
    then show ?thesis using Cons by (simp add: v)
  qed
qed

lemma fold_scan_init:
  "fold scan vs (PInf, NInf) =
     (case finite_values vs of
        [] \<Rightarrow> (PInf, NInf)
      | q # qs \<Rightarrow> (Fin (Min (set (q # qs))), Fin (Max (set (q # qs)))))"
proof (induction vs)
  case Nil
  then show ?case by simp
next
  case (Cons v vs)
  from finite_values_single [of v] show ?case
  proof
    assume e: "finite_values [v] = []"
    then have "finite_values (v # vs) = finite_values vs"
      using finite_values_Cons [of v vs] by simp
    then show ?thesis using Cons scan_other [OF e] by simp
  next
    assume "\<exists>q. v = JNum (Fin q)"
    then obtain q where v: "v = JNum (Fin q)" by blast
    have "scan v (PInf, NInf) = (Fin q, Fin q)" by (simp add: v scan_Fin)
    then have "fold scan (v # vs) (PInf, NInf)
               = (Fin (fold min (finite_values vs) q), Fin (fold max (finite_values vs) q))"
      by (simp add: fold_scan_Fin)
    moreover have "Min (set (q # finite_values vs)) = fold min (finite_values vs) q"
      by (rule Min.set_eq_fold)
    moreover have "Max (set (q # finite_values vs)) = fold max (finite_values vs) q"
      by (rule Max.set_eq_fold)
    ultimately show ?thesis by (simp only: v finite_values.simps list.case)
  qed
qed

lemma fold_min_fixed: "\<forall>x \<in> set xs. (a::rat) \<le> x \<Longrightarrow> fold min xs a = a"
  by (induction xs) (simp_all add: min_absorb2)

lemma fold_max_fixed: "\<forall>x \<in> set xs. x \<le> (a::rat) \<Longrightarrow> fold max xs a = a"
  by (induction xs) (simp_all add: max_absorb2)

lemma fold_scan_again:
  "fold scan vs (fold scan vs (PInf, NInf)) = fold scan vs (PInf, NInf)"
proof (cases "finite_values vs")
  case Nil
  then show ?thesis by (simp add: fold_scan_init)
next
  case (Cons q qs)
  have "fold min (q # qs) (Min (set (q # qs))) = Min (set (q # qs))"
    by (rule fold_min_fixed) simp
  moreover have "fold max (q # qs) (Max (set (q # qs))) = Max (set (q # qs))"
    by (rule fold_max_fixed) simp
  ultimately show ?thesis by (simp only: fold_scan_init Cons list.case fold_scan_Fin)
qed

lemma fold_scan_repeat:
  "(fold scan vs ^^ Suc n) (PInf, NInf) = fold scan vs (PInf, NInf)"
  by (induction n) (simp_all add: fold_scan_again)

lemma length_METRICS: "length METRICS = Suc 3"
  by (simp add: METRICS_def)

lemma computeLocalDomains_xdom:
  "xdom (computeLocalDomains rows us) = pad_x (fold scan (time_reads rows) (PInf, NInf))"
  unfolding computeLocalDomains_eq length_METRICS fold_scan_repeat by simp

lemma computeLocalDomains_ydom:
  "ydom (computeLocalDomains rows us) =
     map (\<lambda>m. (key m, pad_y (fold scan (metric_reads us m rows) (PInf, NInf)))) METRICS"
  unfolding computeLocalDomains_eq by simp

text \<open>
  Claim C9. On the store that holds one point with the given rows, the global computations
  return what the local computation returns for those rows: the same y-domains in the same
  order, and the same time domain.
\<close>

theorem local_agrees_with_global_singleton:
  "ydom (computeLocalDomains rows us) = computeGlobalDomains [(P, rows)] us
   \<and> xdom (computeLocalDomains rows us) = computeGlobalXDomain [(P, rows)]"
  by (simp add: computeLocalDomains_xdom computeLocalDomains_ydom computeGlobalDomains_eq
      computeGlobalXDomain_eq Object_values_def)

subsection \<open>The fallback intervals\<close>

text \<open>Rules to evaluate the rounding of a given rational with.\<close>

lemma floor_rat_numeral: "\<lfloor>numeral a / numeral b :: rat\<rfloor> = numeral a div numeral b"
  using floor_divide_of_int_eq [of "numeral a" "numeral b", where ?'a = rat] by simp

lemmas rd_eval = rd_def huge_def rdq_def ulp_def expo_def ilog2_def rhe_def compute_bitlen Let_def
  floor_rat_numeral

lemma pad_y_fallback: "pad_y (PInf, NInf) = (rd (- 11 / 10), rd (11 / 10))"
  by (simp add: pad_y_def padded_def num_sub_def rd_eval)

lemma pad_x_fallback: "pad_x (PInf, NInf) = (rd (- 2 / 100), rd (102 / 100))"
  by (simp add: pad_x_def padded_def num_sub_def rd_eval)

text \<open>
  Claim C2, as the code has it. On an empty row sequence the local domain computation
  returns the time-axis interval from \<open>-0.02\<close> to \<open>1.02\<close> (the default from 0 to 1,
  padded by 2% of its span on each side) and, for each of the four metrics, the y-axis
  interval from \<open>-1.1\<close> to \<open>1.1\<close> (the fallback from -1 to 1, padded by 5% of its span on
  each side); each bound is the double nearest to the decimal.
\<close>

theorem empty_rows_local_domains:
  "computeLocalDomains [] us =
     \<lparr>ydom = map (\<lambda>m. (key m, (rd (- 11 / 10), rd (11 / 10)))) METRICS,
      xdom = (rd (- 2 / 100), rd (102 / 100))\<rparr>"
proof -
  have "xdom (computeLocalDomains [] us) = (rd (- 2 / 100), rd (102 / 100))"
    by (simp add: computeLocalDomains_xdom time_reads_def pad_x_fallback)
  moreover have "ydom (computeLocalDomains [] us)
      = map (\<lambda>m. (key m, (rd (- 11 / 10), rd (11 / 10)))) METRICS"
    by (simp add: computeLocalDomains_ydom metric_reads_def pad_y_fallback)
  ultimately show ?thesis by (cases "computeLocalDomains [] us") simp
qed

text \<open>Claim C2 as stated fails: neither is the time-axis interval the one from \<open>-0.01\<close> to
  \<open>1.01\<close>, nor is the displacement interval the one from \<open>-2\<close> to \<open>2\<close>. The fallback
  intervals have a span that is not zero, so the fixed pads are not used.\<close>

theorem empty_rows_not_fixed_pads:
  "xdom (computeLocalDomains [] True) \<noteq> (rd (- 1 / 100), rd (101 / 100))
   \<and> map_of (ydom (computeLocalDomains [] True)) ''disp'' \<noteq> Some (Fin (- 2), Fin 2)"
proof -
  have "(rd (- 2 / 100), rd (102 / 100)) \<noteq> (rd (- 1 / 100), rd (101 / 100))"
    by (simp add: rd_eval)
  moreover have "(rd (- 11 / 10), rd (11 / 10)) \<noteq> (Fin (- 2), Fin 2)"
    by (simp add: rd_eval)
  ultimately show ?thesis
    by (simp add: computeLocalDomains_xdom computeLocalDomains_ydom time_reads_def
        metric_reads_def pad_x_fallback pad_y_fallback METRICS_def)
qed

subsection \<open>Padding, and the intervals that come out of it\<close>

lemma rdq_sub_le: "rdq lo = lo \<Longrightarrow> 0 \<le> x \<Longrightarrow> rdq (lo - x) \<le> lo"
  using rdq_mono [of "lo - x" lo] by simp

lemma rdq_add_ge: "rdq hi = hi \<Longrightarrow> 0 \<le> x \<Longrightarrow> hi \<le> rdq (hi + x)"
  using rdq_mono [of hi "hi + x"] by simp

lemma grid_point_above:
  assumes "\<bar>lo\<bar> \<le> 2 ^ 45"
  shows "\<exists>g. rdq g = g \<and> lo < g \<and> g \<le> lo + 2 powi (- 7)"
proof -
  define k where "k = \<lfloor>lo * 2 ^ 7\<rfloor> + 1"
  define g :: rat where "g = of_int k * 2 powi (- 7)"
  have p: "(2::rat) powi (- 7) = 1 / 2 ^ 7" by (simp add: power_int_minus_divide)
  have k1: "lo * 2 ^ 7 < of_int k" unfolding k_def by linarith
  have k2: "of_int k \<le> lo * 2 ^ 7 + 1" unfolding k_def by linarith
  have "\<bar>lo * 2 ^ 7\<bar> \<le> 2 ^ 52" using assms by (simp add: abs_mult)
  then have "\<bar>rat_of_int k\<bar> \<le> 2 ^ 52 + 1" using k1 k2 by linarith
  then have "\<bar>rat_of_int k\<bar> \<le> of_int (2 ^ 53)" by simp
  then have "\<bar>k\<bar> \<le> 2 ^ 53" by (simp only: of_int_abs [symmetric] of_int_le_iff)
  then have "rdq g = g" unfolding g_def by (intro rdq_repr) simp_all
  moreover have "lo < g" using k1 by (simp add: g_def p field_simps)
  moreover have "g \<le> lo + 2 powi (- 7)" using k2 by (simp add: g_def p field_simps)
  ultimately show ?thesis by blast
qed

lemma rd_small: "\<bar>q\<bar> \<le> 2 ^ 47 \<Longrightarrow> rd q = Fin (rdq q)"
  by (rule rd_Fin [of q 47]) simp_all

lemma padded_small:
  assumes lo: "rdq lo = lo" "\<bar>lo\<bar> \<le> 2 ^ 45" and hi: "rdq hi = hi" "\<bar>hi\<bar> \<le> 2 ^ 45"
    and le: "lo \<le> hi" and c: "0 \<le> c" "c \<le> 1" and z: "2 powi (- 7) \<le> z" "z \<le> 1"
  shows "\<exists>l h. padded fb (Fin c) (Fin z) (Fin lo, Fin hi) = (Fin l, Fin h)
           \<and> l < h \<and> l \<le> lo \<and> hi \<le> h"
proof -
  define sp where "sp = rdq (hi - lo)"
  define pp where "pp = rdq (sp * c)"
  define pad where "pad = (if pp \<noteq> 0 then pp else z)"
  have d: "0 \<le> hi - lo" "\<bar>hi - lo\<bar> \<le> 2 ^ 46" using lo hi le by simp_all
  have sp0: "0 \<le> sp" unfolding sp_def using d(1) by (rule rdq_nonneg)
  have sp1: "\<bar>sp\<bar> \<le> 2 ^ 46" unfolding sp_def using d(2) by (rule rdq_abs_le)
  have m0: "0 \<le> sp * c" using sp0 c by simp
  have "sp * c \<le> sp * 1" using sp0 c by (intro mult_left_mono) simp_all
  then have m1: "\<bar>sp * c\<bar> \<le> 2 ^ 46" using m0 sp1 by simp
  have pp0: "0 \<le> pp" unfolding pp_def using m0 by (rule rdq_nonneg)
  have pp1: "\<bar>pp\<bar> \<le> 2 ^ 46" unfolding pp_def using m1 by (rule rdq_abs_le)
  have z0: "0 < z"
  proof -
    have "(0::rat) < 2 powi (- 7)" by simp
    with z show ?thesis by linarith
  qed
  have pad0: "0 < pad" using pp0 z0 by (simp add: pad_def)
  have pad1: "pad \<le> 2 ^ 46"
  proof -
    have "pp \<le> 2 ^ 46" using pp1 by linarith
    moreover have "z \<le> 2 ^ 46" using z(2) by simp
    ultimately show ?thesis by (simp add: pad_def)
  qed
  have e1: "rd (hi - lo) = Fin sp" unfolding sp_def using d(2) by (intro rd_small) simp
  have e2: "rd (sp * c) = Fin pp" unfolding pp_def using m1 by (intro rd_small) simp
  have e3: "rd (lo - pad) = Fin (rdq (lo - pad))" using lo pad0 pad1 by (intro rd_small) simp
  have e4: "rd (hi + pad) = Fin (rdq (hi + pad))" using hi pad0 pad1 by (intro rd_small) simp
  have eq: "padded fb (Fin c) (Fin z) (Fin lo, Fin hi) = (Fin (rdq (lo - pad)), Fin (rdq (hi + pad)))"
  proof (cases "pp = 0")
    case True
    then have "pad = z" by (simp add: pad_def)
    with e3 e4 have "rd (lo - z) = Fin (rdq (lo - pad))" "rd (hi + z) = Fin (rdq (hi + pad))"
      by simp_all
    then show ?thesis using True by (simp add: padded_def num_sub_def e1 e2 Let_def)
  next
    case False
    then have "pad = pp" by (simp add: pad_def)
    with e3 e4 have "rd (lo - pp) = Fin (rdq (lo - pad))" "rd (hi + pp) = Fin (rdq (hi + pad))"
      by simp_all
    then show ?thesis using False by (simp add: padded_def num_sub_def e1 e2 Let_def)
  qed
  have l: "rdq (lo - pad) \<le> lo" using lo(1) pad0 by (intro rdq_sub_le) simp_all
  have h: "hi \<le> rdq (hi + pad)" using hi(1) pad0 by (intro rdq_add_ge) simp_all
  have "rdq (lo - pad) < rdq (hi + pad)"
  proof (cases "lo < hi")
    case True
    with l h show ?thesis by linarith
  next
    case False
    with le have same: "hi = lo" by simp
    then have "sp = 0" by (simp add: sp_def rdq_0)
    then have "pp = 0" by (simp add: pp_def rdq_0)
    then have pz: "pad = z" by (simp add: pad_def)
    from grid_point_above [OF lo(2)] obtain g where g: "rdq g = g" "lo < g" "g \<le> lo + 2 powi (- 7)"
      by blast
    have "g \<le> hi + pad" using g(3) z(1) pz same by simp
    then have "rdq g \<le> rdq (hi + pad)" by (rule rdq_mono)
    with g l show ?thesis by linarith
  qed
  with eq l h show ?thesis by blast
qed

lemma finite_values_mem: "q \<in> set (finite_values vs) \<Longrightarrow> JNum (Fin q) \<in> set vs"
proof (induction vs)
  case Nil
  then show ?case by simp
next
  case (Cons v vs)
  from Cons.prems have "q \<in> set (finite_values [v]) \<or> q \<in> set (finite_values vs)"
    using finite_values_Cons [of v vs] by auto
  then show ?case
  proof
    assume a: "q \<in> set (finite_values [v])"
    with finite_values_single [of v] obtain q' where v: "v = JNum (Fin q')" by auto
    with a show ?thesis by simp
  next
    assume "q \<in> set (finite_values vs)"
    with Cons.IH show ?thesis by simp
  qed
qed

lemma get_prop_all:
  "list_all (\<lambda>kv. P (snd kv)) r \<Longrightarrow> P JUndefined \<Longrightarrow> P (get_prop r k)"
  using get_prop_cases [of r k] by (auto simp: list_all_iff)

lemma metric_reads_all:
  assumes "all_values P rows" "P JUndefined" "v \<in> set (metric_reads us m rows)"
  shows "P v"
proof -
  from assms(3) obtain r s where r: "r \<in> set rows" and v: "v = get_prop r (active_key us s)"
    by (auto simp: metric_reads_def)
  from assms(1) r have "list_all (\<lambda>kv. P (snd kv)) r" by (simp add: all_values_def list_all_iff)
  from get_prop_all [OF this assms(2)] v show ?thesis by simp
qed

lemma time_reads_all:
  assumes "all_values P rows" "P JUndefined" "v \<in> set (time_reads rows)"
  shows "P v"
proof -
  from assms(3) obtain r where r: "r \<in> set rows" and v: "v = get_prop r ''t_k''"
    by (auto simp: time_reads_def)
  from assms(1) r have "list_all (\<lambda>kv. P (snd kv)) r" by (simp add: all_values_def list_all_iff)
  from get_prop_all [OF this assms(2)] v show ?thesis by simp
qed

lemma rd_5_100: "rd (5 / 100) = Fin (3602879701896397 / 2 ^ 56)"
  by (simp add: rd_eval)

lemma rd_2_100: "rd (2 / 100) = Fin (5764607523034235 / 2 ^ 58)"
  by (simp add: rd_eval)

lemma rd_1_100: "rd (1 / 100) = Fin (5764607523034235 / 2 ^ 59)"
  by (simp add: rd_eval)

lemma ratio_y: "\<exists>c. rd (5 / 100) = Fin c \<and> 0 < c \<and> c \<le> 1"
  unfolding rd_5_100 by (intro exI [of _ "3602879701896397 / 2 ^ 56"]) simp

lemma ratio_x: "\<exists>c. rd (2 / 100) = Fin c \<and> 0 < c \<and> c \<le> 1"
  unfolding rd_2_100 by (intro exI [of _ "5764607523034235 / 2 ^ 58"]) simp

lemma zpad_x: "\<exists>z. rd (1 / 100) = Fin z \<and> 2 powi (- 7) \<le> z \<and> z \<le> 1"
  unfolding rd_1_100 by (intro exI [of _ "5764607523034235 / 2 ^ 59"]) (simp add: power_int_minus_divide)

lemma proper_fallback_y: "proper (pad_y (PInf, NInf))"
  unfolding pad_y_fallback by (simp add: rd_eval)

lemma proper_fallback_x: "proper (pad_x (PInf, NInf))"
  unfolding pad_x_fallback by (simp add: rd_eval)

lemma scan_small:
  assumes "\<forall>v \<in> set vs. small_value v"
  shows "fold scan vs (PInf, NInf) = (PInf, NInf)
     \<or> (\<exists>lo hi. fold scan vs (PInf, NInf) = (Fin lo, Fin hi) \<and> lo \<le> hi
           \<and> rdq lo = lo \<and> \<bar>lo\<bar> \<le> 2 ^ 45 \<and> rdq hi = hi \<and> \<bar>hi\<bar> \<le> 2 ^ 45)"
proof (cases "finite_values vs")
  case Nil
  then show ?thesis by (simp add: fold_scan_init)
next
  case (Cons q qs)
  let ?S = "set (q # qs)"
  have mem: "Min ?S \<in> ?S" "Max ?S \<in> ?S" by (simp_all only: Min_in Max_in List.finite_set set_empty list.distinct not_False_eq_True)
  have sm: "rdq x = x \<and> \<bar>x\<bar> \<le> 2 ^ 45" if "x \<in> ?S" for x
  proof -
    from that Cons have "JNum (Fin x) \<in> set vs" by (intro finite_values_mem) simp
    with assms have "small_value (JNum (Fin x))" by blast
    then show ?thesis by simp
  qed
  have "Min ?S \<le> Max ?S" by (rule Min_le) (simp_all only: List.finite_set mem)
  moreover have "fold scan vs (PInf, NInf) = (Fin (Min ?S), Fin (Max ?S))"
    by (simp only: fold_scan_init Cons list.case)
  ultimately show ?thesis using sm [OF mem(1)] sm [OF mem(2)] by blast
qed

lemma proper_pad_y:
  assumes "\<forall>v \<in> set vs. small_value v"
  shows "proper (pad_y (fold scan vs (PInf, NInf)))"
proof -
  from scan_small [OF assms] show ?thesis
  proof
    assume "fold scan vs (PInf, NInf) = (PInf, NInf)"
    then show ?thesis by (simp only: proper_fallback_y)
  next
    assume "\<exists>lo hi. fold scan vs (PInf, NInf) = (Fin lo, Fin hi) \<and> lo \<le> hi
           \<and> rdq lo = lo \<and> \<bar>lo\<bar> \<le> 2 ^ 45 \<and> rdq hi = hi \<and> \<bar>hi\<bar> \<le> 2 ^ 45"
    then obtain lo hi where s: "fold scan vs (PInf, NInf) = (Fin lo, Fin hi)" and le: "lo \<le> hi"
      and lo: "rdq lo = lo" "\<bar>lo\<bar> \<le> 2 ^ 45" and hi: "rdq hi = hi" "\<bar>hi\<bar> \<le> 2 ^ 45"
      by blast
    from ratio_y obtain c where c: "rd (5 / 100) = Fin c" "0 \<le> c" "c \<le> 1" by force
    have z: "(2::rat) powi (- 7) \<le> 1" "(1::rat) \<le> 1" by (simp_all add: power_int_minus_divide)
    from padded_small [OF lo hi le c(2,3) z, of "(Fin (- 1), Fin 1)"]
    obtain l h where "padded (Fin (- 1), Fin 1) (Fin c) (Fin 1) (Fin lo, Fin hi) = (Fin l, Fin h)"
      and "l < h" by blast
    then show ?thesis unfolding pad_y_def s c(1) by simp
  qed
qed

lemma proper_pad_x:
  assumes "\<forall>v \<in> set vs. small_value v"
  shows "proper (pad_x (fold scan vs (PInf, NInf)))"
proof -
  from scan_small [OF assms] show ?thesis
  proof
    assume "fold scan vs (PInf, NInf) = (PInf, NInf)"
    then show ?thesis by (simp only: proper_fallback_x)
  next
    assume "\<exists>lo hi. fold scan vs (PInf, NInf) = (Fin lo, Fin hi) \<and> lo \<le> hi
           \<and> rdq lo = lo \<and> \<bar>lo\<bar> \<le> 2 ^ 45 \<and> rdq hi = hi \<and> \<bar>hi\<bar> \<le> 2 ^ 45"
    then obtain lo hi where s: "fold scan vs (PInf, NInf) = (Fin lo, Fin hi)" and le: "lo \<le> hi"
      and lo: "rdq lo = lo" "\<bar>lo\<bar> \<le> 2 ^ 45" and hi: "rdq hi = hi" "\<bar>hi\<bar> \<le> 2 ^ 45"
      by blast
    from ratio_x obtain c where c: "rd (2 / 100) = Fin c" "0 \<le> c" "c \<le> 1" by force
    from zpad_x obtain z where z: "rd (1 / 100) = Fin z" "2 powi (- 7) \<le> z" "z \<le> 1" by blast
    from padded_small [OF lo hi le c(2,3) z(2,3), of "(Fin 0, Fin 1)"]
    obtain l h where "padded (Fin 0, Fin 1) (Fin c) (Fin z) (Fin lo, Fin hi) = (Fin l, Fin h)"
      and "l < h" by blast
    then show ?thesis unfolding pad_x_def s c(1) z(1) by simp
  qed
qed

text \<open>
  Claim C3, as the code has it. When every finite number in the rows is a double of
  magnitude at most \<open>2 ^ 45\<close>, the global y-domain computation, the global time-domain
  computation and the local domain computation each return, for the time axis and for
  every metric, an interval of two finite bounds with the lower one strictly below the
  upper one. Empty stores, empty row sequences and rows in which every field is missing
  are included.
\<close>

theorem domains_proper:
  assumes "all_values small_value (concat (Object_values pointData))"
    and "all_values small_value rows"
  shows "list_all proper (Object_values (computeGlobalDomains pointData us))
    \<and> Object_keys (computeGlobalDomains pointData us) = map key METRICS
    \<and> proper (computeGlobalXDomain pointData)
    \<and> list_all proper (Object_values (ydom (computeLocalDomains rows us)))
    \<and> Object_keys (ydom (computeLocalDomains rows us)) = map key METRICS
    \<and> proper (xdom (computeLocalDomains rows us))"
proof -
  have u: "small_value JUndefined" by simp
  have y: "proper (pad_y (fold scan (metric_reads us m rs) (PInf, NInf)))"
    if "all_values small_value rs" for m rs
    using metric_reads_all [OF that u] by (intro proper_pad_y) blast
  have x: "proper (pad_x (fold scan (time_reads rs) (PInf, NInf)))"
    if "all_values small_value rs" for rs
    using time_reads_all [OF that u] by (intro proper_pad_x) blast
  show ?thesis
    using y [OF assms(1)] y [OF assms(2)] x [OF assms(1)] x [OF assms(2)]
    by (simp add: computeGlobalDomains_eq computeGlobalXDomain_eq computeLocalDomains_xdom
        computeLocalDomains_ydom Object_values_def Object_keys_def list_all_iff comp_def)
qed

theorem domains_proper_witness:
  "all_values small_value
     (concat (Object_values [(''A'', [[(''t_k'', JNum (Fin 0)), (''theta_deg'', JNum (Fin 10))]])]))
   \<and> all_values small_value [[(''t_k'', JNull), (''ratio'', JNum (Fin (1 / 2)))]]
   \<and> list_all proper (Object_values (computeGlobalDomains
        [(''A'', [[(''t_k'', JNum (Fin 0)), (''theta_deg'', JNum (Fin 10))]])] False))
   \<and> proper (computeGlobalXDomain
        [(''A'', [[(''t_k'', JNum (Fin 0)), (''theta_deg'', JNum (Fin 10))]])])
   \<and> list_all proper (Object_values (ydom (computeLocalDomains
        [[(''t_k'', JNull), (''ratio'', JNum (Fin (1 / 2)))]] False)))
   \<and> proper (xdom (computeLocalDomains
        [[(''t_k'', JNull), (''ratio'', JNum (Fin (1 / 2)))]] False))"
proof -
  have a: "all_values small_value
     (concat (Object_values [(''A'', [[(''t_k'', JNum (Fin 0)), (''theta_deg'', JNum (Fin 10))]])]))"
    by (simp add: all_values_def Object_values_def rd_eval)
  have b: "all_values small_value [[(''t_k'', JNull), (''ratio'', JNum (Fin (1 / 2)))]]"
    by (simp add: all_values_def rd_eval)
  from domains_proper [OF a b, of False] a b show ?thesis by blast
qed

text \<open>Claim C3 as stated fails for a store with the single angle \<open>2 ^ 55\<close>, a double: the
  span is zero, the pad is 1, and both \<open>2 ^ 55 - 1\<close> and \<open>2 ^ 55 + 1\<close> round to \<open>2 ^ 55\<close>,
  so the lower and the upper bound of the angle domain are equal.\<close>

theorem huge_value_degenerate_domain:
  "is_double (2 ^ 55)
   \<and> map_of (computeGlobalDomains [(''A'', [[(''theta_deg'', JNum (Fin (2 ^ 55)))]])] False)
        ''theta'' = Some (Fin (2 ^ 55), Fin (2 ^ 55))
   \<and> \<not> list_all proper (Object_values
         (computeGlobalDomains [(''A'', [[(''theta_deg'', JNum (Fin (2 ^ 55)))]])] False))"
proof -
  have d: "is_double (2 ^ 55)" by (simp add: is_double_def rd_eval)
  have s: "scan (JNum (Fin (2 ^ 55))) (PInf, NInf) = (Fin (2 ^ 55), Fin (2 ^ 55))"
    by (simp add: scan_Fin)
  have p: "pad_y (Fin (2 ^ 55), Fin (2 ^ 55)) = (Fin (2 ^ 55), Fin (2 ^ 55))"
    by (simp add: pad_y_def padded_def num_sub_def rd_eval)
  have "map_of (computeGlobalDomains [(''A'', [[(''theta_deg'', JNum (Fin (2 ^ 55)))]])] False)
        ''theta'' = Some (Fin (2 ^ 55), Fin (2 ^ 55))"
    unfolding computeGlobalDomains_eq
    by (simp add: METRICS_def metric_reads_def Object_values_def active_key_def get_prop_def
        s [simplified] p [simplified])
  moreover from this have "(Fin (2 ^ 55), Fin (2 ^ 55))
      \<in> set (Object_values (computeGlobalDomains
            [(''A'', [[(''theta_deg'', JNum (Fin (2 ^ 55)))]])] False))"
    unfolding Object_values_def by (metis map_of_SomeD set_zip_rightD zip_map_fst_snd)
  then have "\<not> list_all proper (Object_values
         (computeGlobalDomains [(''A'', [[(''theta_deg'', JNum (Fin (2 ^ 55)))]])] False))"
    unfolding list_all_iff by (metis less_irrefl proper.simps(1))
  ultimately show ?thesis using d by blast
qed

subsection \<open>The interval and the values it was computed from\<close>

lemma huge_pos: "0 < huge"
  by (simp add: huge_def)

lemma rd_mono: "x \<le> y \<Longrightarrow> num_le (rd x) (rd y)"
  using rdq_mono [of x y] huge_pos by (auto simp: rd_def Let_def)

lemma rd_double: "is_double q \<Longrightarrow> rd q = Fin q"
  using rd_Fin_abs [of q] by (simp add: is_double_def)

lemma rd_0: "rd 0 = Fin 0"
  using huge_pos by (simp add: rd_def rdq_0)

lemma rd_nonneg: "0 \<le> q \<Longrightarrow> ext_nonneg (rd q)"
  using rd_mono [of 0 q] by (cases "rd q") (auto simp: rd_0 ext_nonneg_def)

lemma mul_nonneg:
  assumes "ext_nonneg a" "0 < c"
  shows "ext_nonneg (num_mul a (Fin c))"
proof -
  from assms(1) show ?thesis unfolding ext_nonneg_def [of a]
  proof
    assume "a = PInf"
    then show ?thesis using assms(2) by (simp add: ext_nonneg_def Let_def)
  next
    assume "\<exists>x. a = Fin x \<and> 0 \<le> x"
    then obtain x where x: "a = Fin x" "0 \<le> x" by blast
    have "0 \<le> x * c" using x(2) assms(2) by simp
    then show ?thesis by (simp add: x(1) rd_nonneg)
  qed
qed

lemma sub_below:
  assumes "is_double lo" "ext_nonneg pad"
  shows "num_le (num_sub (Fin lo) pad) (Fin lo)"
proof -
  from assms(2) show ?thesis unfolding ext_nonneg_def
  proof
    assume "pad = PInf"
    then show ?thesis by (simp add: num_sub_def)
  next
    assume "\<exists>x. pad = Fin x \<and> 0 \<le> x"
    then obtain x where x: "pad = Fin x" "0 \<le> x" by blast
    have "num_le (rd (lo - x)) (rd lo)" using x(2) by (intro rd_mono) simp
    then show ?thesis using assms(1) by (simp add: num_sub_def x(1) rd_double)
  qed
qed

lemma add_above:
  assumes "is_double hi" "ext_nonneg pad"
  shows "num_le (Fin hi) (num_add (Fin hi) pad)"
proof -
  from assms(2) show ?thesis unfolding ext_nonneg_def
  proof
    assume "pad = PInf"
    then show ?thesis by simp
  next
    assume "\<exists>x. pad = Fin x \<and> 0 \<le> x"
    then obtain x where x: "pad = Fin x" "0 \<le> x" by blast
    have "num_le (rd hi) (rd (hi + x))" using x(2) by (intro rd_mono) simp
    then show ?thesis using assms(1) by (simp add: x(1) rd_double)
  qed
qed

lemma padded_contains:
  assumes "is_double lo" "is_double hi" "lo \<le> hi" "0 < c" "0 \<le> z"
  shows "\<exists>low high. padded fb (Fin c) (Fin z) (Fin lo, Fin hi) = (low, high)
           \<and> num_le low (Fin lo) \<and> num_le (Fin hi) high"
proof -
  define p where "p = num_mul (num_sub (Fin hi) (Fin lo)) (Fin c)"
  define pad where "pad = (if num_truthy p then p else Fin z)"
  have "ext_nonneg (num_sub (Fin hi) (Fin lo))"
    using assms(3) by (simp add: num_sub_def rd_nonneg)
  then have "ext_nonneg p" unfolding p_def using assms(4) by (rule mul_nonneg)
  then have pad: "ext_nonneg pad" using assms(5) by (simp add: pad_def ext_nonneg_def)
  have "padded fb (Fin c) (Fin z) (Fin lo, Fin hi) = (num_sub (Fin lo) pad, num_add (Fin hi) pad)"
    by (simp add: padded_def Let_def pad_def p_def)
  with sub_below [OF assms(1) pad] add_above [OF assms(2) pad] show ?thesis by simp
qed

lemma map_of_keyed:
  "distinct (map kf xs) \<Longrightarrow> x \<in> set xs \<Longrightarrow>
   map_of (map (\<lambda>x. (kf x, h x)) xs) (kf x) = Some (h x)"
  by (induction xs) (auto simp: image_iff)

lemma scan_double:
  assumes "\<forall>v \<in> set vs. double_value v" "finite_values vs \<noteq> []"
  shows "fold scan vs (PInf, NInf)
           = (Fin (Min (set (finite_values vs))), Fin (Max (set (finite_values vs))))
     \<and> is_double (Min (set (finite_values vs))) \<and> is_double (Max (set (finite_values vs)))
     \<and> Min (set (finite_values vs)) \<le> Max (set (finite_values vs))"
proof -
  let ?S = "set (finite_values vs)"
  from assms(2) obtain q qs where c: "finite_values vs = q # qs" by (cases "finite_values vs") auto
  have ne: "?S \<noteq> {}" using assms(2) by simp
  have mem: "Min ?S \<in> ?S" "Max ?S \<in> ?S" using ne by (simp_all add: Min_in Max_in)
  have d: "is_double x" if "x \<in> ?S" for x
  proof -
    from that have "JNum (Fin x) \<in> set vs" by (rule finite_values_mem)
    with assms(1) have "double_value (JNum (Fin x))" by blast
    then show ?thesis by simp
  qed
  have "Min ?S \<le> Max ?S" by (rule Min_le) (simp_all only: List.finite_set mem)
  moreover have "fold scan vs (PInf, NInf) = (Fin (Min ?S), Fin (Max ?S))"
    by (simp only: fold_scan_init c list.case)
  ultimately show ?thesis using d [OF mem(1)] d [OF mem(2)] by blast
qed

lemma scenario_disp:
  "map_of (computeGlobalDomains [(''A'', [dA]), (''B'', [dB])] False) ''disp''
     = Some (rd (- 13 / 10), rd (53 / 10))"
  unfolding computeGlobalDomains_eq
  by (simp add: METRICS_def metric_reads_def Object_values_def active_key_def get_prop_def
      dA_def dB_def scan_def pad_y_def padded_def num_sub_def rd_eval)

lemma scenario_bounds:
  "\<exists>low high. (rd (- 13 / 10), rd (53 / 10)) = (Fin low, Fin high) \<and> low < 0 \<and> 5 < high"
proof -
  have "rd (- 13 / 10) = Fin (- (5854679515581645 / 2 ^ 52))" by (simp add: rd_eval)
  moreover have "rd (53 / 10) = Fin (5967269506265907 / 2 ^ 50)" by (simp add: rd_eval)
  moreover have "- (5854679515581645 / 2 ^ 52) < (0::rat)" "(5::rat) < 5967269506265907 / 2 ^ 50"
    by simp_all
  ultimately show ?thesis by blast
qed

text \<open>
  Without a bound on the magnitudes: for every store of doubles, the global y-domain of a
  metric with a contributing value has its lower bound at or below the minimum and its
  upper bound at or above the maximum; a bound is infinite when the padding overflows.
\<close>

lemma global_domain_contains_all_stores:
  assumes "all_values double_value (concat (Object_values pointData))"
    and "m \<in> set METRICS" and "contributing pointData us m \<noteq> []"
  shows "\<exists>low high. map_of (computeGlobalDomains pointData us) (key m) = Some (low, high)
            \<and> num_le low (Fin (Min (set (contributing pointData us m))))
            \<and> num_le (Fin (Max (set (contributing pointData us m)))) high"
proof -
  let ?vs = "metric_reads us m (concat (Object_values pointData))"
  let ?S = "set (contributing pointData us m)"
  have u: "double_value JUndefined" by simp
  have "\<forall>v \<in> set ?vs. double_value v" using metric_reads_all [OF assms(1) u] by blast
  moreover have "finite_values ?vs \<noteq> []" using assms(3) by (simp add: contributing_def)
  ultimately have s: "fold scan ?vs (PInf, NInf) = (Fin (Min ?S), Fin (Max ?S))"
    and d: "is_double (Min ?S)" "is_double (Max ?S)" and le: "Min ?S \<le> Max ?S"
    using scan_double [of ?vs] by (simp_all add: contributing_def)
  from ratio_y obtain c where c: "rd (5 / 100) = Fin c" "0 < c" by blast
  from padded_contains [OF d le c(2), of 1 "(Fin (- 1), Fin 1)"]
  obtain low high where p: "padded (Fin (- 1), Fin 1) (Fin c) (Fin 1) (Fin (Min ?S), Fin (Max ?S))
       = (low, high)" and b: "num_le low (Fin (Min ?S))" "num_le (Fin (Max ?S)) high"
    by auto
  from p have "pad_y (fold scan ?vs (PInf, NInf)) = (low, high)" unfolding pad_y_def s c(1) .
  then have "map_of (computeGlobalDomains pointData us) (key m) = Some (low, high)"
    unfolding computeGlobalDomains_eq
    using map_of_keyed [OF distinct_METRICS assms(2),
        of "\<lambda>m. pad_y (fold scan (metric_reads us m (concat (Object_values pointData)))
              (PInf, NInf))"]
    by simp
  with b show ?thesis by blast
qed

lemma scenario_contributing:
  "contributing [(''A'', [dA]), (''B'', [dB])] False (hd METRICS) = [0, 1, 5, - 1]"
  by (simp add: contributing_def metric_reads_def Object_values_def METRICS_def active_key_def
      get_prop_def dA_def dB_def)

subsection \<open>The margin around the values\<close>

lemma pow2_frac: "(2::rat) powi (- int k) = 1 / 2 ^ k"
  by (simp add: power_int_minus_divide)

lemma rdq_pow2_frac:
  assumes "k \<le> 1074"
  shows "rdq (1 / 2 ^ k) = 1 / 2 ^ k" and "rdq (32 / 2 ^ k) = 32 / 2 ^ k"
proof -
  have j: "- 1074 \<le> - int k" using assms by simp
  from rdq_repr [of 1 "- int k"] j show "rdq (1 / 2 ^ k) = 1 / 2 ^ k" by (simp add: pow2_frac)
  from rdq_repr [of 32 "- int k"] j show "rdq (32 / 2 ^ k) = 32 / 2 ^ k" by (simp add: pow2_frac)
qed

lemma grid_points:
  assumes k: "k \<le> 1074" and b: "\<bar>v\<bar> \<le> 2 ^ 52 / 2 ^ k"
  shows "\<exists>g. rdq g = g \<and> v < g \<and> g \<le> v + 1 / 2 ^ k"
    and "\<exists>g. rdq g = g \<and> v - 1 / 2 ^ k \<le> g \<and> g < v"
proof -
  have j: "- 1074 \<le> - int k" using k by simp
  have p: "(0::rat) < 2 ^ k" by simp
  have "\<bar>v\<bar> * 2 ^ k \<le> 2 ^ 52" using b p by (simp add: field_simps)
  then have s: "\<bar>v * 2 ^ k\<bar> \<le> 2 ^ 52" by (simp add: abs_mult)
  have repr: "rdq (of_int n * 2 powi (- int k)) = of_int n * 2 powi (- int k)"
    if "\<bar>rat_of_int n\<bar> \<le> 2 ^ 52 + 1" for n
  proof -
    from that have "\<bar>rat_of_int n\<bar> \<le> of_int (2 ^ 53)" by simp
    then have "\<bar>n\<bar> \<le> 2 ^ 53" by (simp only: of_int_abs [symmetric] of_int_le_iff)
    then show ?thesis using j by (intro rdq_repr) simp_all
  qed
  show "\<exists>g. rdq g = g \<and> v < g \<and> g \<le> v + 1 / 2 ^ k"
  proof -
    define n where "n = \<lfloor>v * 2 ^ k\<rfloor> + 1"
    define g :: rat where "g = of_int n * 2 powi (- int k)"
    have n1: "v * 2 ^ k < of_int n" unfolding n_def by linarith
    have n2: "of_int n \<le> v * 2 ^ k + 1" unfolding n_def by linarith
    have "\<bar>rat_of_int n\<bar> \<le> 2 ^ 52 + 1" using s n1 n2 by linarith
    then have "rdq g = g" unfolding g_def by (rule repr)
    moreover have "v < g" using n1 p by (simp add: g_def pow2_frac field_simps)
    moreover have "g \<le> v + 1 / 2 ^ k" using n2 p by (simp add: g_def pow2_frac field_simps)
    ultimately show ?thesis by blast
  qed
  show "\<exists>g. rdq g = g \<and> v - 1 / 2 ^ k \<le> g \<and> g < v"
  proof -
    define n where "n = \<lceil>v * 2 ^ k\<rceil> - 1"
    define g :: rat where "g = of_int n * 2 powi (- int k)"
    have n1: "of_int n < v * 2 ^ k" unfolding n_def by linarith
    have n2: "v * 2 ^ k - 1 \<le> of_int n" unfolding n_def by linarith
    have "\<bar>rat_of_int n\<bar> \<le> 2 ^ 52 + 1" using s n1 n2 by linarith
    then have "rdq g = g" unfolding g_def by (rule repr)
    moreover have "g < v" using n1 p by (simp add: g_def pow2_frac field_simps)
    moreover have "v - 1 / 2 ^ k \<le> g"
    proof -
      have "(v * 2 ^ k - 1) / 2 ^ k \<le> of_int n / 2 ^ k" using n2 p by (intro divide_right_mono) simp_all
      moreover have "(v * 2 ^ k - 1) / 2 ^ k = v - 1 / 2 ^ k" by (simp add: diff_divide_distrib)
      ultimately show ?thesis by (simp add: g_def pow2_frac)
    qed
    ultimately show ?thesis by blast
  qed
qed

lemma rd_mid: "\<bar>q\<bar> \<le> 2 ^ 54 \<Longrightarrow> rd q = Fin (rdq q)"
  by (rule rd_Fin [of q 54]) simp_all

lemma padded_strict:
  assumes k: "k \<le> 1074"
    and lo: "rdq lo = lo" "\<bar>lo\<bar> \<le> 2 ^ 52 / 2 ^ k" and hi: "rdq hi = hi" "\<bar>hi\<bar> \<le> 2 ^ 52 / 2 ^ k"
    and apart: "lo = hi \<or> 32 / 2 ^ k \<le> hi - lo" and c: "1 / 32 \<le> c" "c \<le> 1"
  shows "\<exists>l h. padded fb (Fin c) (Fin 1) (Fin lo, Fin hi) = (Fin l, Fin h) \<and> l < lo \<and> hi < h"
proof -
  define sp where "sp = rdq (hi - lo)"
  define pp where "pp = rdq (sp * c)"
  define pad where "pad = (if pp \<noteq> 0 then pp else 1)"
  have u: "(1::rat) / 2 ^ k \<le> 1" by (simp add: field_simps)
  have "(2::rat) ^ 52 / 2 ^ k \<le> 2 ^ 52" by (simp add: field_simps)
  then have lo52: "\<bar>lo\<bar> \<le> 2 ^ 52" and hi52: "\<bar>hi\<bar> \<le> 2 ^ 52" using lo(2) hi(2) by linarith+
  have le: "lo \<le> hi"
  proof -
    have "(0::rat) < 32 / 2 ^ k" by simp
    with apart show ?thesis by linarith
  qed
  have d: "0 \<le> hi - lo" "\<bar>hi - lo\<bar> \<le> 2 ^ 53" using lo52 hi52 le by simp_all
  have sp0: "0 \<le> sp" unfolding sp_def using d(1) by (rule rdq_nonneg)
  have sp1: "\<bar>sp\<bar> \<le> 2 ^ 53" unfolding sp_def using d(2) by (rule rdq_abs_le)
  have c0: "0 \<le> c" using c(1) by simp
  have m0: "0 \<le> sp * c" using sp0 c0 by simp
  have "sp * c \<le> sp * 1" using sp0 c by (intro mult_left_mono) simp_all
  then have m1: "\<bar>sp * c\<bar> \<le> 2 ^ 53" using m0 sp1 by simp
  have pp0: "0 \<le> pp" unfolding pp_def using m0 by (rule rdq_nonneg)
  have pp1: "\<bar>pp\<bar> \<le> 2 ^ 53" unfolding pp_def using m1 by (rule rdq_abs_le)
  have pad1: "pad \<le> 2 ^ 53"
  proof -
    have "pp \<le> 2 ^ 53" using pp1 by linarith
    then show ?thesis by (simp add: pad_def)
  qed
  have padk: "1 / 2 ^ k \<le> pad"
  proof (cases "lo = hi")
    case True
    then have "sp = 0" by (simp add: sp_def rdq_0)
    then have "pp = 0" by (simp add: pp_def rdq_0)
    then show ?thesis using u by (simp add: pad_def)
  next
    case False
    with apart have a: "32 / 2 ^ k \<le> hi - lo" by simp
    have "rdq (32 / 2 ^ k) \<le> sp" unfolding sp_def using a by (rule rdq_mono)
    then have s: "32 / 2 ^ k \<le> sp" by (simp only: rdq_pow2_frac [OF k])
    have "(32 / 2 ^ k) * (1 / 32) \<le> sp * c"
      using s c(1) sp0 by (intro mult_mono) simp_all
    then have "1 / 2 ^ k \<le> sp * c" by simp
    then have "rdq (1 / 2 ^ k) \<le> pp" unfolding pp_def by (rule rdq_mono)
    then have p: "1 / 2 ^ k \<le> pp" by (simp only: rdq_pow2_frac [OF k])
    moreover have "(0::rat) < 1 / 2 ^ k" by simp
    ultimately have "pp \<noteq> 0" by linarith
    then show ?thesis using p by (simp add: pad_def)
  qed
  have pad0: "0 < pad"
  proof -
    have "(0::rat) < 1 / 2 ^ k" by simp
    with padk show ?thesis by linarith
  qed
  have e1: "rd (hi - lo) = Fin sp" unfolding sp_def using d(2) by (intro rd_mid) simp
  have e2: "rd (sp * c) = Fin pp" unfolding pp_def using m1 by (intro rd_mid) simp
  have e3: "rd (lo - pad) = Fin (rdq (lo - pad))" using lo52 pad0 pad1 by (intro rd_mid) simp
  have e4: "rd (hi + pad) = Fin (rdq (hi + pad))" using hi52 pad0 pad1 by (intro rd_mid) simp
  have eq: "padded fb (Fin c) (Fin 1) (Fin lo, Fin hi) = (Fin (rdq (lo - pad)), Fin (rdq (hi + pad)))"
  proof (cases "pp = 0")
    case True
    then have "pad = 1" by (simp add: pad_def)
    with e3 e4 have "rd (lo - 1) = Fin (rdq (lo - pad))" "rd (hi + 1) = Fin (rdq (hi + pad))"
      by simp_all
    then show ?thesis using True by (simp add: padded_def num_sub_def e1 e2 Let_def)
  next
    case False
    then have "pad = pp" by (simp add: pad_def)
    with e3 e4 have "rd (lo - pp) = Fin (rdq (lo - pad))" "rd (hi + pp) = Fin (rdq (hi + pad))"
      by simp_all
    then show ?thesis using False by (simp add: padded_def num_sub_def e1 e2 Let_def)
  qed
  from grid_points(2) [OF k lo(2)] obtain g where g: "rdq g = g" "lo - 1 / 2 ^ k \<le> g" "g < lo"
    by blast
  from grid_points(1) [OF k hi(2)] obtain g' where g': "rdq g' = g'" "hi < g'" "g' \<le> hi + 1 / 2 ^ k"
    by blast
  have "lo - pad \<le> g" using g(2) padk by linarith
  then have "rdq (lo - pad) \<le> rdq g" by (rule rdq_mono)
  then have l: "rdq (lo - pad) < lo" using g by linarith
  have "g' \<le> hi + pad" using g'(3) padk by linarith
  then have "rdq g' \<le> rdq (hi + pad)" by (rule rdq_mono)
  then have h: "hi < rdq (hi + pad)" using g' by linarith
  from eq l h show ?thesis by blast
qed

lemma ratio_y_bounds: "\<exists>c. rd (5 / 100) = Fin c \<and> 1 / 32 \<le> c \<and> c \<le> 1"
  unfolding rd_5_100 by (intro exI [of _ "3602879701896397 / 2 ^ 56"]) simp

lemma fold_scan_nonempty:
  assumes "finite_values vs \<noteq> []"
  shows "fold scan vs (PInf, NInf)
           = (Fin (Min (set (finite_values vs))), Fin (Max (set (finite_values vs))))"
proof -
  from assms obtain q qs where c: "finite_values vs = q # qs" by (cases "finite_values vs") auto
  show ?thesis by (simp only: fold_scan_init c list.case)
qed

text \<open>
  Claim C4, as the code has it. Take a metric and a store that contributes at least one
  finite active-field value to it, and let, for some \<open>k\<close> from 0 to 1074, every
  contributing value be a double of magnitude at most \<open>2 ^ 52 / 2 ^ k\<close> and the minimum
  and the maximum contributing value be equal or at least \<open>32 / 2 ^ k\<close> apart (with
  \<open>k = 5\<close>: magnitudes up to \<open>2 ^ 47\<close>, and values equal or at least 1 apart). Then the
  global y-domain of the metric has finite bounds, the lower one strictly below the
  minimum contributing value and the upper one strictly above the maximum: a positive
  margin on both sides. In the two-point scenario the raw-mode displacement domain has its
  lower bound below 0 and its upper bound above 5.
\<close>

theorem global_domain_margin:
  assumes "m \<in> set METRICS" and "contributing pointData us m \<noteq> []"
    and "k \<le> 1074"
    and "list_all (\<lambda>q. rdq q = q \<and> \<bar>q\<bar> \<le> 2 ^ 52 / 2 ^ k) (contributing pointData us m)"
    and "Min (set (contributing pointData us m)) = Max (set (contributing pointData us m))
       \<or> 32 / 2 ^ k \<le> Max (set (contributing pointData us m))
                         - Min (set (contributing pointData us m))"
  shows "(\<exists>low high. map_of (computeGlobalDomains pointData us) (key m) = Some (Fin low, Fin high)
            \<and> low < Min (set (contributing pointData us m))
            \<and> Max (set (contributing pointData us m)) < high)
    \<and> (\<exists>low high. map_of (computeGlobalDomains [(''A'', [dA]), (''B'', [dB])] False) ''disp''
                       = Some (Fin low, Fin high) \<and> low < 0 \<and> 5 < high)"
proof -
  let ?vs = "metric_reads us m (concat (Object_values pointData))"
  let ?S = "set (contributing pointData us m)"
  have fv: "finite_values ?vs = contributing pointData us m" by (simp add: contributing_def)
  have s: "fold scan ?vs (PInf, NInf) = (Fin (Min ?S), Fin (Max ?S))"
    using fold_scan_nonempty [of ?vs] assms(2) by (simp add: fv)
  have ne: "?S \<noteq> {}" using assms(2) by simp
  have mem: "Min ?S \<in> ?S" "Max ?S \<in> ?S" using ne by (simp_all add: Min_in Max_in)
  have v: "rdq x = x \<and> \<bar>x\<bar> \<le> 2 ^ 52 / 2 ^ k" if "x \<in> ?S" for x
    using assms(4) that by (simp add: list_all_iff)
  from ratio_y_bounds obtain c where c: "rd (5 / 100) = Fin c" "1 / 32 \<le> c" "c \<le> 1" by blast
  have lo: "rdq (Min ?S) = Min ?S" "\<bar>Min ?S\<bar> \<le> 2 ^ 52 / 2 ^ k" using v [OF mem(1)] by simp_all
  have hi: "rdq (Max ?S) = Max ?S" "\<bar>Max ?S\<bar> \<le> 2 ^ 52 / 2 ^ k" using v [OF mem(2)] by simp_all
  from padded_strict [OF assms(3) lo hi assms(5) c(2,3), of "(Fin (- 1), Fin 1)"]
  obtain l h where p: "padded (Fin (- 1), Fin 1) (Fin c) (Fin 1) (Fin (Min ?S), Fin (Max ?S))
       = (Fin l, Fin h)" and b: "l < Min ?S" "Max ?S < h"
    by blast
  from p have "pad_y (fold scan ?vs (PInf, NInf)) = (Fin l, Fin h)" unfolding pad_y_def s c(1) .
  then have "map_of (computeGlobalDomains pointData us) (key m) = Some (Fin l, Fin h)"
    unfolding computeGlobalDomains_eq
    using map_of_keyed [OF distinct_METRICS assms(1),
        of "\<lambda>m. pad_y (fold scan (metric_reads us m (concat (Object_values pointData)))
              (PInf, NInf))"]
    by simp
  with b have "\<exists>low high. map_of (computeGlobalDomains pointData us) (key m)
            = Some (Fin low, Fin high) \<and> low < Min ?S \<and> Max ?S < high" by blast
  moreover from scenario_bounds
  have "\<exists>low high. map_of (computeGlobalDomains [(''A'', [dA]), (''B'', [dB])] False) ''disp''
                       = Some (Fin low, Fin high) \<and> low < 0 \<and> 5 < high"
    unfolding scenario_disp by blast
  ultimately show ?thesis by blast
qed

theorem global_domain_margin_witness:
  "hd METRICS \<in> set METRICS
   \<and> contributing [(''A'', [dA]), (''B'', [dB])] False (hd METRICS) = [0, 1, 5, - 1]
   \<and> (5::nat) \<le> 1074
   \<and> list_all (\<lambda>q. rdq q = q \<and> \<bar>q\<bar> \<le> 2 ^ 52 / 2 ^ 5) [0, 1, 5, - 1 :: rat]
   \<and> (32::rat) / 2 ^ 5 \<le> 5 - (- 1)
   \<and> (\<exists>low high. map_of (computeGlobalDomains [(''A'', [dA]), (''B'', [dB])] False) ''disp''
                      = Some (Fin low, Fin high)
         \<and> low < - 1 \<and> 5 < high)"
proof -
  let ?pd = "[(''A'', [dA]), (''B'', [dB])]"
  have m: "hd METRICS \<in> set METRICS" by (simp add: METRICS_def)
  have c: "contributing ?pd False (hd METRICS) \<noteq> []" by (simp add: scenario_contributing)
  have k: "(5::nat) \<le> 1074" by simp
  have l: "list_all (\<lambda>q. rdq q = q \<and> \<bar>q\<bar> \<le> 2 ^ 52 / 2 ^ 5) [0, 1, 5, - 1 :: rat]"
    by (simp add: rd_eval)
  then have l': "list_all (\<lambda>q. rdq q = q \<and> \<bar>q\<bar> \<le> 2 ^ 52 / 2 ^ 5) (contributing ?pd False (hd METRICS))"
    by (simp only: scenario_contributing)
  have key: "key (hd METRICS) = ''disp''" by (simp add: METRICS_def)
  have mn: "Min (set (contributing ?pd False (hd METRICS))) = - 1"
    and mx: "Max (set (contributing ?pd False (hd METRICS))) = 5"
    by (simp_all add: scenario_contributing)
  have a: "(32::rat) / 2 ^ 5 \<le> 5 - (- 1)" by simp
  then have a': "Min (set (contributing ?pd False (hd METRICS)))
        = Max (set (contributing ?pd False (hd METRICS)))
      \<or> 32 / 2 ^ 5 \<le> Max (set (contributing ?pd False (hd METRICS)))
                        - Min (set (contributing ?pd False (hd METRICS)))"
    unfolding mn mx by blast
  from global_domain_margin [OF m c k l' a']
  have "\<exists>low high. map_of (computeGlobalDomains ?pd False) ''disp'' = Some (Fin low, Fin high)
         \<and> low < - 1 \<and> 5 < high"
    unfolding key mn mx by blast
  with m scenario_contributing k l a show ?thesis by blast
qed

text \<open>Claim C4 as stated fails for the ratios \<open>1\<close> and \<open>1 + 2 powi - 52\<close>, two neighbouring
  doubles: 5% of their distance is less than half the spacing of the doubles below 1, so
  the padded lower bound rounds back to \<open>1\<close>, the minimum itself, and the padded upper
  bound to the maximum.\<close>

theorem neighbouring_values_no_margin:
  "is_double 1 \<and> is_double (1 + 1 / 2 ^ 52)
   \<and> contributing [(''A'', [[(''ratio'', JNum (Fin 1))]]),
                    (''B'', [[(''ratio'', JNum (Fin (1 + 1 / 2 ^ 52)))]])] False (last METRICS)
       = [1, 1 + 1 / 2 ^ 52]
   \<and> map_of (computeGlobalDomains [(''A'', [[(''ratio'', JNum (Fin 1))]]),
                    (''B'', [[(''ratio'', JNum (Fin (1 + 1 / 2 ^ 52)))]])] False) ''ratio''
       = Some (Fin 1, Fin (1 + 1 / 2 ^ 52))"
proof -
  have "is_double 1" "is_double (1 + 1 / 2 ^ 52)" by (simp_all add: is_double_def rd_eval)
  moreover have "contributing [(''A'', [[(''ratio'', JNum (Fin 1))]]),
                    (''B'', [[(''ratio'', JNum (Fin (1 + 1 / 2 ^ 52)))]])] False (last METRICS)
       = [1, 1 + 1 / 2 ^ 52]"
    by (simp add: contributing_def metric_reads_def Object_values_def METRICS_def active_key_def
      get_prop_def)
  moreover have "map_of (computeGlobalDomains [(''A'', [[(''ratio'', JNum (Fin 1))]]),
                    (''B'', [[(''ratio'', JNum (Fin (1 + 1 / 2 ^ 52)))]])] False) ''ratio''
       = Some (Fin 1, Fin (1 + 1 / 2 ^ 52))"
    unfolding computeGlobalDomains_eq
    by (simp add: METRICS_def metric_reads_def Object_values_def active_key_def get_prop_def
      scan_def pad_y_def padded_def num_sub_def rd_eval)
  ultimately show ?thesis by blast
qed

end
